theory Spec2Isabelle
  imports Complex_Main "HOL-Library.Sublist" "HOL-Library.Multiset"
begin

section \<open>Data model of \<open>streets.c\<close>\<close>

text \<open>
  The structs of the source become records. A C \<open>double\<close> or \<open>float\<close> is a real
  number here (rounding and overflow are outside the model); the value \<open>INFINITY\<close>
  and the results of a division by a zero speed are the extra value \<open>NonFinite\<close>.
  An array together with its length field is a list: \<open>num_nodes\<close> of a way is the
  length of \<open>node_ids\<close>, \<open>num_ways\<close> of a node is the length of \<open>nways\<close>, and the two
  counts of the map are the lengths of its arrays. A node points to its ways; the
  map is never changed by a query, so the pointer is modelled by the way it points to.
  An entry of the map's arrays that was never filled is \<open>None\<close> (the source tests
  it against \<open>NULL\<close>).
\<close>

datatype dbl = Fin real | NonFinite

record way =
  wid :: int
  name :: string
  max_speed :: real
  one_way :: bool
  node_ids :: "int list"

record node =
  nid :: int
  lat :: real
  lon :: real
  nways :: "way list"

record ssmap =
  nodes :: "node option list"
  ways :: "way option list"

record heap_node =
  node_id :: int
  distance :: real

record min_heap =
  elements :: "heap_node list"
  hsize :: nat
  capacity :: nat

definition num_nodes :: "ssmap \<Rightarrow> int" where
  "num_nodes m = int (length (nodes m))"

definition num_ways :: "ssmap \<Rightarrow> int" where
  "num_ways m = int (length (ways m))"

text \<open>
  What the C program does when it reads outside an array or through a null pointer
  is undefined; the model stops with a fault there.
\<close>

datatype fault = OutOfBounds | NullPointer

section \<open>The priority queue\<close>

text \<open>
  \<open>create_min_heap\<close> allocates \<open>capacity\<close> cells and sets the size to 0. The cells
  are not initialised by the source; no function below reads a cell at or beyond
  \<open>hsize\<close>, so their content in the model is a fixed filler.
\<close>

definition create_min_heap :: "nat \<Rightarrow> min_heap" where
  "create_min_heap cap =
     \<lparr>elements = replicate cap \<lparr>node_id = 0, distance = 0\<rparr>, hsize = 0, capacity = cap\<rparr>"

definition swap_heap_node :: "heap_node list \<Rightarrow> nat \<Rightarrow> nat \<Rightarrow> heap_node list" where
  "swap_heap_node es a b = (let t = es ! a in (es[a := es ! b])[b := t])"

function min_heapify :: "min_heap \<Rightarrow> nat \<Rightarrow> min_heap" where
  "min_heapify h idx =
     (let left = 2 * idx + 1;
          right = 2 * idx + 2;
          smallest0 = idx;
          smallest1 = (if left < hsize h \<and>
                          distance (elements h ! left) < distance (elements h ! smallest0)
                       then left else smallest0);
          smallest = (if right < hsize h \<and>
                         distance (elements h ! right) < distance (elements h ! smallest1)
                      then right else smallest1)
      in if smallest \<noteq> idx
         then min_heapify (h\<lparr>elements := swap_heap_node (elements h) idx smallest\<rparr>) smallest
         else h)"
  by pat_completeness auto
termination
  by (relation "measure (\<lambda>(h, idx). hsize h - idx)") (auto split: if_splits)

declare min_heapify.simps [simp del]

definition extract_min :: "min_heap \<Rightarrow> heap_node \<times> min_heap" where
  "extract_min h =
     (if hsize h = 0 then (\<lparr>node_id = - 1, distance = 0\<rparr>, h)
      else
        let root = elements h ! 0;
            h1 = h\<lparr>elements := (elements h)[0 := elements h ! (hsize h - 1)]\<rparr>;
            h2 = h1\<lparr>hsize := hsize h1 - 1\<rparr>
        in (root, min_heapify h2 0))"

text \<open>
  The loop that moves an entry towards the root is written twice in the source,
  in \<open>decrease_key\<close> and in \<open>insert_min_heap\<close>, with the same text.
\<close>

function sift_up :: "min_heap \<Rightarrow> nat \<Rightarrow> min_heap" where
  "sift_up h i =
     (if i \<noteq> 0 \<and> distance (elements h ! ((i - 1) div 2)) > distance (elements h ! i)
      then sift_up (h\<lparr>elements := swap_heap_node (elements h) i ((i - 1) div 2)\<rparr>) ((i - 1) div 2)
      else h)"
  by pat_completeness auto
termination
  by (relation "measure (\<lambda>(h, i). i)") auto

declare sift_up.simps [simp del]

function decrease_key_from :: "min_heap \<Rightarrow> int \<Rightarrow> real \<Rightarrow> nat \<Rightarrow> min_heap" where
  "decrease_key_from h v d i =
     (if i < hsize h
      then if node_id (elements h ! i) = v
           then sift_up (h\<lparr>elements := (elements h)[i := (elements h ! i)\<lparr>distance := d\<rparr>]\<rparr>) i
           else decrease_key_from h v d (i + 1)
      else h)"
  by pat_completeness auto
termination
  by (relation "measure (\<lambda>(h, v, d, i). hsize h - i)") auto

declare decrease_key_from.simps [simp del]

definition decrease_key :: "min_heap \<Rightarrow> int \<Rightarrow> real \<Rightarrow> min_heap" where
  "decrease_key h v d = decrease_key_from h v d 0"

function is_in_min_heap_from :: "min_heap \<Rightarrow> int \<Rightarrow> nat \<Rightarrow> bool" where
  "is_in_min_heap_from h v i =
     (if i < hsize h
      then if node_id (elements h ! i) = v then True else is_in_min_heap_from h v (i + 1)
      else False)"
  by pat_completeness auto
termination
  by (relation "measure (\<lambda>(h, v, i). hsize h - i)") auto

declare is_in_min_heap_from.simps [simp del]

definition is_in_min_heap :: "min_heap \<Rightarrow> int \<Rightarrow> bool" where
  "is_in_min_heap h v = is_in_min_heap_from h v 0"

definition insert_min_heap :: "min_heap \<Rightarrow> int \<Rightarrow> real \<Rightarrow> min_heap" where
  "insert_min_heap h v d =
     (if hsize h = capacity h then h
      else
        let h1 = h\<lparr>hsize := hsize h + 1\<rparr>;
            i = hsize h1 - 1;
            h2 = h1\<lparr>elements := (elements h1)[i := \<lparr>node_id = v, distance = d\<rparr>]\<rparr>
        in sift_up h2 i)"

function find_node_index_from :: "int list \<Rightarrow> int \<Rightarrow> nat \<Rightarrow> int" where
  "find_node_index_from ids v i =
     (if i < length ids
      then if ids ! i = v then int i else find_node_index_from ids v (i + 1)
      else - 1)"
  by pat_completeness auto
termination
  by (relation "measure (\<lambda>(ids, v, i). length ids - i)") auto

declare find_node_index_from.simps [simp del]

definition find_node_index_in_way :: "way \<Rightarrow> int \<Rightarrow> int" where
  "find_node_index_in_way w v = find_node_index_from (node_ids w) v 0"

section \<open>Search by name\<close>

text \<open>
  \<open>strstr\<close> is the C library's function: the first place in the text where the
  pattern starts, or the null pointer (\<open>None\<close>). The empty pattern is found at
  the start of every text.
\<close>

fun strstr :: "string \<Rightarrow> string \<Rightarrow> string option" where
  "strstr [] needle = (if needle = [] then Some [] else None)"
| "strstr (c # cs) needle =
     (if prefix needle (c # cs) then Some (c # cs) else strstr cs needle)"

text \<open>
  The first loop of \<open>ssmap_find_node_by_names\<close> fills the two arrays
  \<open>ways_with_name1\<close> and \<open>ways_with_name2\<close> with indices of the map's way array.
\<close>

fun name_scan ::
  "way option list \<Rightarrow> int \<Rightarrow> string \<Rightarrow> string option \<Rightarrow> int list \<Rightarrow> int list
    \<Rightarrow> fault + (int list \<times> int list)" where
  "name_scan [] i name1 name2 w1 w2 = Inr (w1, w2)"
| "name_scan (None # rest) i name1 name2 w1 w2 = Inl NullPointer"
| "name_scan (Some w # rest) i name1 name2 w1 w2 =
     (if strstr (name w) name1 \<noteq> None
      then (if (case name2 of None \<Rightarrow> False | Some n2 \<Rightarrow> strstr (name w) n2 \<noteq> None)
            then name_scan rest (i + 1) name1 name2 (w1 @ [i]) (w2 @ [i])
            else name_scan rest (i + 1) name1 name2 (w1 @ [i]) w2)
      else if (case name2 of None \<Rightarrow> False | Some n2 \<Rightarrow> strstr (name w) n2 \<noteq> None)
      then name_scan rest (i + 1) name1 name2 w1 (w2 @ [i])
      else name_scan rest (i + 1) name1 name2 w1 w2)"

text \<open>The branch for one name: loops over \<open>j\<close> (the node's ways) and \<open>k\<close>.\<close>

fun one_name_k :: "int \<Rightarrow> int list \<Rightarrow> bool \<Rightarrow> bool" where
  "one_name_k wj [] found_name1 = found_name1"
| "one_name_k wj (x # xs) found_name1 = (if wj = x then True else one_name_k wj xs found_name1)"

fun one_name_j :: "int list \<Rightarrow> int list \<Rightarrow> bool \<Rightarrow> bool" where
  "one_name_j [] with1 bool_checker = bool_checker"
| "one_name_j (wj # rest) with1 bool_checker =
     (if one_name_k wj with1 False then True else one_name_j rest with1 bool_checker)"

text \<open>
  The branch for two names: four nested loops over \<open>j\<close>, \<open>k\<close>, \<open>l\<close> and the
  innermost index, with the flags \<open>found_name1\<close> and \<open>found_name2\<close> and the
  source's \<open>break\<close>s.
\<close>

fun two_names_m :: "int \<Rightarrow> int \<Rightarrow> int list \<Rightarrow> bool \<Rightarrow> bool" where
  "two_names_m wl w1k [] found_name2 = found_name2"
| "two_names_m wl w1k (x # xs) found_name2 =
     (if wl = x \<and> w1k \<noteq> x then True else two_names_m wl w1k xs found_name2)"

fun two_names_l :: "int list \<Rightarrow> int \<Rightarrow> int list \<Rightarrow> bool \<Rightarrow> bool" where
  "two_names_l [] w1k with2 found_name2 = found_name2"
| "two_names_l (wl # rest) w1k with2 found_name2 =
     (let f2 = two_names_m wl w1k with2 found_name2
      in if f2 then f2 else two_names_l rest w1k with2 f2)"

fun two_names_k :: "int \<Rightarrow> int list \<Rightarrow> int list \<Rightarrow> int list \<Rightarrow> bool \<times> bool \<Rightarrow> bool \<times> bool" where
  "two_names_k wj node_way_ids [] with2 (f1, f2) = (f1, f2)"
| "two_names_k wj node_way_ids (w1k # rest) with2 (f1, f2) =
     (let (g1, g2) = (if wj = w1k then (True, two_names_l node_way_ids w1k with2 f2)
                      else (f1, f2))
      in if g1 \<and> g2 then (g1, g2) else two_names_k wj node_way_ids rest with2 (g1, g2))"

fun two_names_j :: "int list \<Rightarrow> int list \<Rightarrow> int list \<Rightarrow> int list \<Rightarrow> bool \<times> bool \<Rightarrow> bool \<times> bool" where
  "two_names_j [] node_way_ids with1 with2 checkers = checkers"
| "two_names_j (wj # rest) node_way_ids with1 with2 checkers =
     (let (f1, f2) = two_names_k wj node_way_ids with1 with2 (False, False)
      in if f1 \<and> f2 then (f1, f2) else two_names_j rest node_way_ids with1 with2 checkers)"

text \<open>
  The loop over the nodes; the result is the list of identifiers printed, in the
  order printed (the line ends with a newline).
\<close>

fun node_scan ::
  "node option list \<Rightarrow> int \<Rightarrow> bool \<Rightarrow> int list \<Rightarrow> int list \<Rightarrow> int list \<Rightarrow> fault + int list" where
  "node_scan [] i two with1 with2 out = Inr out"
| "node_scan (None # rest) i two with1 with2 out = Inl NullPointer"
| "node_scan (Some nd # rest) i two with1 with2 out =
     (let node_way_ids = map wid (nways nd)
      in if \<not> two
         then (if one_name_j node_way_ids with1 False
               then node_scan rest (i + 1) two with1 with2 (out @ [i])
               else node_scan rest (i + 1) two with1 with2 out)
         else (case two_names_j node_way_ids node_way_ids with1 with2 (False, False) of
                 (bool_checker1, bool_checker2) \<Rightarrow>
                   if bool_checker1 \<and> bool_checker2
                   then node_scan rest (i + 1) two with1 with2 (out @ [i])
                   else node_scan rest (i + 1) two with1 with2 out))"

definition ssmap_find_node_by_names :: "ssmap \<Rightarrow> string \<Rightarrow> string option \<Rightarrow> fault + int list" where
  "ssmap_find_node_by_names m name1 name2 =
     (case name_scan (ways m) 0 name1 name2 [] [] of
        Inl f \<Rightarrow> Inl f
      | Inr (with1, with2) \<Rightarrow> node_scan (nodes m) 0 (name2 \<noteq> None) with1 with2 [])"

section \<open>Distance\<close>

text \<open>
  \<open>atan2\<close> is the C library's function, on real numbers. \<open>d2r\<close> is the source's
  macro. The distance is the source's formula with real arithmetic: the doubles
  are read as the real numbers they stand for, without rounding. On real numbers
  the term \<open>a\<close> lies between 0 and 1 and the distance is a number. In the source's
  doubles \<open>a\<close> can round above 1 when the two points are opposite each other on
  the globe (\<open>a\<close> is 1 without rounding); then \<open>sqrt (1 - a)\<close> and the distance are
  NaN. A quotient by a speed close to 0 can overflow in the same way. The
  properties of the router's cost that need finite distances and times are stated
  with the condition \<open>moderate_ways\<close> below, which keeps the source away from both.
\<close>

definition atan2 :: "real \<Rightarrow> real \<Rightarrow> real" where
  "atan2 y x =
     (if 0 < x then arctan (y / x)
      else if x < 0 then (if 0 \<le> y then arctan (y / x) + pi else arctan (y / x) - pi)
      else if 0 < y then pi / 2
      else if y < 0 then - pi / 2
      else 0)"

definition d2r :: "real \<Rightarrow> real" where
  "d2r deg = deg * pi / 180"

definition distance_between_nodes :: "node \<Rightarrow> node \<Rightarrow> real" where
  "distance_between_nodes x y =
     (let R = 6371;
          lat1 = lat x;
          lon1 = lon x;
          lat2 = lat y;
          lon2 = lon y;
          dlat = d2r (lat2 - lat1);
          dlon = d2r (lon2 - lon1);
          a = (sin (dlat / 2)) ^ 2 + cos (d2r lat1) * cos (d2r lat2) * (sin (dlon / 2)) ^ 2;
          c = 2 * atan2 (sqrt a) (sqrt (1 - a))
      in R * c)"

section \<open>Travel time of a path\<close>

text \<open>
  The five error lines of \<open>ssmap_path_travel_time\<close>, in the order of the source:
  "node .. does not exist.", "node .. appeared more than once.",
  "there are no roads between node .. and node ..",
  "cannot go directly from node .. to node ..",
  "cannot go in reverse from node .. to node ..".
\<close>

datatype err_line =
    NodeNotExist int
  | NodeRepeated int
  | NoRoads int int
  | NotDirect int int
  | Reverse int int

definition get_node :: "ssmap \<Rightarrow> int \<Rightarrow> node option" where
  "get_node m i = (if i < 0 \<or> i \<ge> num_nodes m then None else nodes m ! nat i)"

text \<open>First loop: every identifier is in range and its node is there.\<close>

fun pass_exist :: "ssmap \<Rightarrow> int list \<Rightarrow> err_line option" where
  "pass_exist m [] = None"
| "pass_exist m (i # rest) =
     (if i < 0 \<or> i \<ge> num_nodes m \<or> nodes m ! nat i = None then Some (NodeNotExist i)
      else pass_exist m rest)"

text \<open>Second loop: the inner loop counts the entries equal to entry \<open>i\<close>.\<close>

fun count_eq :: "int list \<Rightarrow> int \<Rightarrow> nat \<Rightarrow> nat" where
  "count_eq [] x cnt = cnt"
| "count_eq (y # ys) x cnt = count_eq ys x (if y = x then cnt + 1 else cnt)"

fun pass_unique :: "int list \<Rightarrow> int list \<Rightarrow> err_line option" where
  "pass_unique all_ids [] = None"
| "pass_unique all_ids (i # rest) =
     (if count_eq all_ids i 0 > 1 then Some (NodeRepeated i) else pass_unique all_ids rest)"

text \<open>Third loop: the two nodes have a way of the same identifier.\<close>

fun roads_k :: "way \<Rightarrow> way list \<Rightarrow> bool \<Rightarrow> bool" where
  "roads_k w1 [] flag = flag"
| "roads_k w1 (w2 # rest) flag = (if wid w1 = wid w2 then True else roads_k w1 rest flag)"

fun roads_j :: "way list \<Rightarrow> way list \<Rightarrow> bool \<Rightarrow> bool" where
  "roads_j [] ws2 flag = flag"
| "roads_j (w1 # rest) ws2 flag = roads_j rest ws2 (roads_k w1 ws2 flag)"

fun pass_roads :: "ssmap \<Rightarrow> int list \<Rightarrow> fault + err_line option" where
  "pass_roads m (current # next # rest) =
     (case (get_node m current, get_node m next) of
        (Some node1, Some node2) \<Rightarrow>
          if \<not> roads_j (nways node1) (nways node2) False
          then Inr (Some (NoRoads current next))
          else pass_roads m (next # rest)
      | _ \<Rightarrow> Inl NullPointer)"
| "pass_roads m ids = Inr None"

text \<open>Fourth loop: some shared way lists the two nodes next to each other.\<close>

fun direct_l :: "int list \<Rightarrow> int \<Rightarrow> int \<Rightarrow> bool \<Rightarrow> bool" where
  "direct_l (a # b # rest) current next flag =
     (if (a = current \<and> b = next) \<or> (a = next \<and> b = current) then True
      else direct_l (b # rest) current next flag)"
| "direct_l ids current next flag = flag"

fun direct_k :: "way \<Rightarrow> way list \<Rightarrow> int \<Rightarrow> int \<Rightarrow> bool \<Rightarrow> bool" where
  "direct_k w1 [] current next flag = flag"
| "direct_k w1 (w2 # rest) current next flag =
     direct_k w1 rest current next
       (if wid w1 = wid w2 then direct_l (node_ids w1) current next flag else flag)"

fun direct_j :: "way list \<Rightarrow> way list \<Rightarrow> int \<Rightarrow> int \<Rightarrow> bool \<Rightarrow> bool" where
  "direct_j [] ws2 current next flag = flag"
| "direct_j (w1 # rest) ws2 current next flag =
     direct_j rest ws2 current next (direct_k w1 ws2 current next flag)"

fun pass_direct :: "ssmap \<Rightarrow> int list \<Rightarrow> fault + err_line option" where
  "pass_direct m (current # next # rest) =
     (case (get_node m current, get_node m next) of
        (Some node1, Some node2) \<Rightarrow>
          if \<not> direct_j (nways node1) (nways node2) current next False
          then Inr (Some (NotDirect current next))
          else pass_direct m (next # rest)
      | _ \<Rightarrow> Inl NullPointer)"
| "pass_direct m ids = Inr None"

text \<open>Fifth loop: the same scan, with the direction of a one-way way.\<close>

fun oneway_l :: "way \<Rightarrow> int list \<Rightarrow> int \<Rightarrow> int \<Rightarrow> bool \<Rightarrow> bool" where
  "oneway_l w (a # b # rest) current next flag =
     (if one_way w \<and> a = current \<and> b = next then True
      else if \<not> one_way w \<and> ((a = current \<and> b = next) \<or> (a = next \<and> b = current)) then True
      else oneway_l w (b # rest) current next flag)"
| "oneway_l w ids current next flag = flag"

fun oneway_k :: "way \<Rightarrow> way list \<Rightarrow> int \<Rightarrow> int \<Rightarrow> bool \<Rightarrow> bool" where
  "oneway_k w1 [] current next flag = flag"
| "oneway_k w1 (w2 # rest) current next flag =
     oneway_k w1 rest current next
       (if wid w1 = wid w2 then oneway_l w1 (node_ids w1) current next flag else flag)"

fun oneway_j :: "way list \<Rightarrow> way list \<Rightarrow> int \<Rightarrow> int \<Rightarrow> bool \<Rightarrow> bool" where
  "oneway_j [] ws2 current next flag = flag"
| "oneway_j (w1 # rest) ws2 current next flag =
     oneway_j rest ws2 current next (oneway_k w1 ws2 current next flag)"

fun pass_oneway :: "ssmap \<Rightarrow> int list \<Rightarrow> fault + err_line option" where
  "pass_oneway m (current # next # rest) =
     (case (get_node m current, get_node m next) of
        (Some node1, Some node2) \<Rightarrow>
          if \<not> oneway_j (nways node1) (nways node2) current next False
          then Inr (Some (Reverse current next))
          else pass_oneway m (next # rest)
      | _ \<Rightarrow> Inl NullPointer)"
| "pass_oneway m ids = Inr None"

text \<open>
  The last loop: the same scan once more, storing the way's identifier in
  \<open>way_id\<close> (initially 0) at each hit; then the way is looked up in the map and
  the time of the step is added.
\<close>

fun pick_l :: "way \<Rightarrow> int list \<Rightarrow> int \<Rightarrow> int \<Rightarrow> int \<Rightarrow> int" where
  "pick_l w (a # b # rest) current next way_id =
     (if one_way w \<and> a = current \<and> b = next then wid w
      else if \<not> one_way w \<and> ((a = current \<and> b = next) \<or> (a = next \<and> b = current)) then wid w
      else pick_l w (b # rest) current next way_id)"
| "pick_l w ids current next way_id = way_id"

fun pick_k :: "way \<Rightarrow> way list \<Rightarrow> int \<Rightarrow> int \<Rightarrow> int \<Rightarrow> int" where
  "pick_k w1 [] current next way_id = way_id"
| "pick_k w1 (w2 # rest) current next way_id =
     pick_k w1 rest current next
       (if wid w1 = wid w2 then pick_l w1 (node_ids w1) current next way_id else way_id)"

fun pick_j :: "way list \<Rightarrow> way list \<Rightarrow> int \<Rightarrow> int \<Rightarrow> int \<Rightarrow> int" where
  "pick_j [] ws2 current next way_id = way_id"
| "pick_j (w1 # rest) ws2 current next way_id =
     pick_j rest ws2 current next (pick_k w1 ws2 current next way_id)"

definition get_way :: "ssmap \<Rightarrow> int \<Rightarrow> fault + way" where
  "get_way m i =
     (if i < 0 \<or> i \<ge> num_ways m then Inl OutOfBounds
      else case ways m ! nat i of None \<Rightarrow> Inl NullPointer | Some w \<Rightarrow> Inr w)"

text \<open>
  \<open>travel_time + distance / speed\<close>: a division by the speed 0 gives an infinity
  or a NaN, and every later sum and product stays one.
\<close>

definition add_quotient :: "dbl \<Rightarrow> real \<Rightarrow> real \<Rightarrow> dbl" where
  "add_quotient t d speed =
     (case t of NonFinite \<Rightarrow> NonFinite
      | Fin x \<Rightarrow> if speed = 0 then NonFinite else Fin (x + d / speed))"

definition times60 :: "dbl \<Rightarrow> dbl" where
  "times60 t = (case t of NonFinite \<Rightarrow> NonFinite | Fin x \<Rightarrow> Fin (x * 60))"

fun sum_time :: "ssmap \<Rightarrow> int list \<Rightarrow> dbl \<Rightarrow> fault + dbl" where
  "sum_time m (current # next # rest) travel_time =
     (case (get_node m current, get_node m next) of
        (Some node1, Some node2) \<Rightarrow>
          (case get_way m (pick_j (nways node1) (nways node2) current next 0) of
             Inl f \<Rightarrow> Inl f
           | Inr w \<Rightarrow>
               sum_time m (next # rest)
                 (add_quotient travel_time (distance_between_nodes node1 node2) (max_speed w)))
      | _ \<Rightarrow> Inl NullPointer)"
| "sum_time m ids travel_time = Inr travel_time"

text \<open>
  The result of \<open>ssmap_path_travel_time\<close>: the lines printed and the value
  returned. Each failing loop prints its line and returns -1.0 at once.
\<close>

definition ssmap_path_travel_time :: "ssmap \<Rightarrow> int list \<Rightarrow> fault + (err_line list \<times> dbl)" where
  "ssmap_path_travel_time m ids =
     (case pass_exist m ids of
        Some e \<Rightarrow> Inr ([e], Fin (- 1))
      | None \<Rightarrow>
     (case pass_unique ids ids of
        Some e \<Rightarrow> Inr ([e], Fin (- 1))
      | None \<Rightarrow>
     (case pass_roads m ids of
        Inl f \<Rightarrow> Inl f
      | Inr (Some e) \<Rightarrow> Inr ([e], Fin (- 1))
      | Inr None \<Rightarrow>
     (case pass_direct m ids of
        Inl f \<Rightarrow> Inl f
      | Inr (Some e) \<Rightarrow> Inr ([e], Fin (- 1))
      | Inr None \<Rightarrow>
     (case pass_oneway m ids of
        Inl f \<Rightarrow> Inl f
      | Inr (Some e) \<Rightarrow> Inr ([e], Fin (- 1))
      | Inr None \<Rightarrow>
     (case sum_time m ids (Fin 0) of
        Inl f \<Rightarrow> Inl f
      | Inr t \<Rightarrow> Inr ([], times60 t)))))))"

section \<open>Shortest path\<close>

text \<open>
  The working arrays of \<open>ssmap_path_create\<close> and its queue. An entry of \<open>dist\<close>
  is \<open>NonFinite\<close> while it holds \<open>INFINITY\<close>.
\<close>

record dijkstra_state =
  dist :: "dbl list"
  visited :: "bool list"
  parent :: "int list"
  heap :: min_heap

text \<open>
  The body of the innermost block, for the neighbour \<open>v\<close> of \<open>u\<close> on way \<open>w\<close>.
  Reading \<open>visited[v]\<close> needs \<open>v\<close> in range, and the distance needs the node of
  \<open>v\<close>. With a speed of 0 the quotient is an infinity or a NaN (the distance is
  never negative), so that \<open>alt < dist[v]\<close> is false and nothing is updated.
\<close>

definition relax :: "ssmap \<Rightarrow> int \<Rightarrow> node \<Rightarrow> way \<Rightarrow> int \<Rightarrow> dijkstra_state \<Rightarrow> fault + dijkstra_state" where
  "relax m u node_u w v st =
     (if v < 0 \<or> v \<ge> num_nodes m then Inl OutOfBounds
      else if \<not> visited st ! nat v \<and> dist st ! nat u \<noteq> NonFinite
      then (case nodes m ! nat v of
              None \<Rightarrow> Inl NullPointer
            | Some node_v \<Rightarrow>
                (case dist st ! nat u of
                   NonFinite \<Rightarrow> Inr st
                 | Fin du \<Rightarrow>
                     if max_speed w = 0 then Inr st
                     else
                       let alt = du + distance_between_nodes node_u node_v / max_speed w * 60
                       in if (case dist st ! nat v of NonFinite \<Rightarrow> True | Fin dv \<Rightarrow> alt < dv)
                          then Inr (st\<lparr>dist := (dist st)[nat v := Fin alt],
                                       parent := (parent st)[nat v := u],
                                       heap := (if \<not> is_in_min_heap (heap st) v
                                                then insert_min_heap (heap st) v alt
                                                else decrease_key (heap st) v alt)\<rparr>)
                          else Inr st))
      else Inr st)"

definition explore_offset ::
  "ssmap \<Rightarrow> int \<Rightarrow> node \<Rightarrow> way \<Rightarrow> int \<Rightarrow> int \<Rightarrow> dijkstra_state \<Rightarrow> fault + dijkstra_state" where
  "explore_offset m u node_u w node_index offset st =
     (let next_node_index = node_index + offset
      in if next_node_index \<ge> 0 \<and> next_node_index < int (length (node_ids w))
         then
           let v = node_ids w ! nat next_node_index
           in if one_way w \<and> offset < 0 then Inr st
              else relax m u node_u w v st
         else Inr st)"

definition explore_way :: "ssmap \<Rightarrow> int \<Rightarrow> node \<Rightarrow> way \<Rightarrow> dijkstra_state \<Rightarrow> fault + dijkstra_state" where
  "explore_way m u node_u w st =
     (let node_index = find_node_index_in_way w u
      in case explore_offset m u node_u w node_index (- 1) st of
           Inl f \<Rightarrow> Inl f
         | Inr st1 \<Rightarrow> explore_offset m u node_u w node_index 1 st1)"

fun explore_ways :: "ssmap \<Rightarrow> int \<Rightarrow> node \<Rightarrow> way list \<Rightarrow> dijkstra_state \<Rightarrow> fault + dijkstra_state" where
  "explore_ways m u node_u [] st = Inr st"
| "explore_ways m u node_u (w # rest) st =
     (case explore_way m u node_u w st of
        Inl f \<Rightarrow> Inl f
      | Inr st1 \<Rightarrow> explore_ways m u node_u rest st1)"

text \<open>
  One round of the main loop, entered with a queue that is not empty: the result
  is a fault, or the new state and whether the loop was left by \<open>break\<close>.
\<close>

definition dijkstra_round :: "ssmap \<Rightarrow> int \<Rightarrow> dijkstra_state \<Rightarrow> fault + (bool \<times> dijkstra_state)" where
  "dijkstra_round m end_id st =
     (case extract_min (heap st) of
        (min_heap_node, h) \<Rightarrow>
          let u = node_id min_heap_node
          in if u < 0 \<or> u \<ge> num_nodes m then Inl OutOfBounds
             else
               let st1 = st\<lparr>heap := h, visited := (visited st)[nat u := True]\<rparr>
               in if u = end_id then Inr (True, st1)
                  else (case nodes m ! nat u of
                          None \<Rightarrow> Inl NullPointer
                        | Some node_u \<Rightarrow>
                            (case explore_ways m u node_u (nways node_u) st1 of
                               Inl f \<Rightarrow> Inl f
                             | Inr st2 \<Rightarrow> Inr (False, st2))))"

text \<open>
  The main loop. Whether it ends is not known from its text; a run that does not
  end has the value \<open>None\<close>.
\<close>

partial_function (option) dijkstra_loop ::
  "ssmap \<Rightarrow> int \<Rightarrow> dijkstra_state \<Rightarrow> (fault + dijkstra_state) option" where
  "dijkstra_loop m end_id st =
     (if hsize (heap st) > 0
      then (case dijkstra_round m end_id st of
              Inl f \<Rightarrow> Some (Inl f)
            | Inr (stop, st1) \<Rightarrow> if stop then Some (Inr st1) else dijkstra_loop m end_id st1)
      else Some (Inr st))"

definition dijkstra_init :: "ssmap \<Rightarrow> int \<Rightarrow> dijkstra_state" where
  "dijkstra_init m start_id =
     (let n = length (nodes m)
      in \<lparr>dist = (replicate n NonFinite)[nat start_id := Fin 0],
          visited = replicate n False,
          parent = replicate n (- 1),
          heap = insert_min_heap (create_min_heap n) start_id 0\<rparr>)"

text \<open>
  The walk from the end along \<open>parent\<close>, pushing on a stack of \<open>num_nodes\<close> cells;
  the stack is then printed from its top.
\<close>

function walk_parents :: "int list \<Rightarrow> nat \<Rightarrow> int \<Rightarrow> int list \<Rightarrow> fault + int list" where
  "walk_parents par n at_id stack =
     (if at_id = - 1 then Inr stack
      else if length stack \<ge> n \<or> at_id < 0 \<or> at_id \<ge> int n then Inl OutOfBounds
      else walk_parents par n (par ! nat at_id) (stack @ [at_id]))"
  by pat_completeness auto
termination
  by (relation "measure (\<lambda>(par, n, at_id, stack). n - length stack)") auto

declare walk_parents.simps [simp del]

text \<open>
  What \<open>ssmap_path_create\<close> prints: an error line, or the identifiers of one line
  of path, or nothing.
\<close>

datatype out_line = ErrLine err_line | PathLine "int list"

definition reconstruct :: "ssmap \<Rightarrow> int \<Rightarrow> dijkstra_state \<Rightarrow> fault + out_line list" where
  "reconstruct m end_id st =
     (if parent st ! nat end_id = - 1 then Inr []
      else (case walk_parents (parent st) (length (nodes m)) end_id [] of
              Inl f \<Rightarrow> Inl f
            | Inr stack \<Rightarrow> Inr [PathLine (rev stack)]))"

definition ssmap_path_create :: "ssmap \<Rightarrow> int \<Rightarrow> int \<Rightarrow> (fault + out_line list) option" where
  "ssmap_path_create m start_id end_id =
     (if start_id < 0 \<or> start_id \<ge> num_nodes m \<or> nodes m ! nat start_id = None
      then Some (Inr [ErrLine (NodeNotExist start_id)])
      else if end_id < 0 \<or> end_id \<ge> num_nodes m \<or> nodes m ! nat end_id = None
      then Some (Inr [ErrLine (NodeNotExist end_id)])
      else if start_id = end_id then Some (Inr [PathLine [start_id, end_id]])
      else (case dijkstra_loop m end_id (dijkstra_init m start_id) of
              None \<Rightarrow> None
            | Some (Inl f) \<Rightarrow> Some (Inl f)
            | Some (Inr st) \<Rightarrow> Some (reconstruct m end_id st)))"

section \<open>The relations of the specification\<close>

text \<open>
  The properties below are stated with the following definitions, which follow the
  words of the specification and not the loops of the source.

  \<open>adjacent_in ids a b\<close>: the sequence lists \<open>a\<close> immediately before \<open>b\<close>.
  \<open>step u v s\<close>: segment \<open>s\<close> lists \<open>u\<close> and \<open>v\<close> at adjacent positions, and either
  it is two-way or the order is \<open>u\<close> then \<open>v\<close>.
\<close>

definition adjacent_in :: "int list \<Rightarrow> int \<Rightarrow> int \<Rightarrow> bool" where
  "adjacent_in ids a b = ((a, b) \<in> set (zip ids (tl ids)))"

definition step :: "int \<Rightarrow> int \<Rightarrow> way \<Rightarrow> bool" where
  "step u v s = (adjacent_in (node_ids s) u v \<or> (\<not> one_way s \<and> adjacent_in (node_ids s) v u))"

text \<open>
  The ways of the first node whose identifier is also the identifier of a way of
  the second node, in the order of the first node's list.
\<close>

definition common_ways :: "node \<Rightarrow> node \<Rightarrow> way list" where
  "common_ways node1 node2 = filter (\<lambda>w1. wid w1 \<in> wid ` set (nways node2)) (nways node1)"

definition ways_between :: "ssmap \<Rightarrow> int \<Rightarrow> int \<Rightarrow> way list" where
  "ways_between m u v =
     (case (get_node m u, get_node m v) of
        (Some node1, Some node2) \<Rightarrow> common_ways node1 node2
      | _ \<Rightarrow> [])"

text \<open>
  The first offending condition of a sequence, in the order existence, uniqueness,
  co-membership, direct adjacency, directionality; \<open>None\<close> when there is none.
\<close>

definition validation_error :: "ssmap \<Rightarrow> int list \<Rightarrow> err_line option" where
  "validation_error m ids =
     (case find (\<lambda>i. get_node m i = None) ids of
        Some i \<Rightarrow> Some (NodeNotExist i)
      | None \<Rightarrow>
     (case find (\<lambda>i. count_list ids i > 1) ids of
        Some i \<Rightarrow> Some (NodeRepeated i)
      | None \<Rightarrow>
     (case find (\<lambda>(u, v). ways_between m u v = []) (zip ids (tl ids)) of
        Some (u, v) \<Rightarrow> Some (NoRoads u v)
      | None \<Rightarrow>
     (case find (\<lambda>(u, v). \<not> (\<exists>w \<in> set (ways_between m u v).
                    adjacent_in (node_ids w) u v \<or> adjacent_in (node_ids w) v u))
             (zip ids (tl ids)) of
        Some (u, v) \<Rightarrow> Some (NotDirect u v)
      | None \<Rightarrow>
     (case find (\<lambda>(u, v). \<not> (\<exists>w \<in> set (ways_between m u v). step u v w)) (zip ids (tl ids)) of
        Some (u, v) \<Rightarrow> Some (Reverse u v)
      | None \<Rightarrow> None)))))"

text \<open>
  The path that a printed line stands for: for a start equal to the end the source
  prints the start twice, which stands for the path of the one point \<open>start\<close>.
  \<open>against_one_way m u v\<close>: some segments of both points list \<open>u\<close> and \<open>v\<close> next
  to each other, and each of them is one-way and lists them only in the order
  \<open>v\<close> then \<open>u\<close>.
\<close>

definition denoted_path :: "int \<Rightarrow> int \<Rightarrow> int list \<Rightarrow> int list" where
  "denoted_path start_id end_id line = (if start_id = end_id then [start_id] else line)"

definition against_one_way :: "ssmap \<Rightarrow> int \<Rightarrow> int \<Rightarrow> bool" where
  "against_one_way m u v =
     (let cs = filter (\<lambda>w. adjacent_in (node_ids w) u v \<or> adjacent_in (node_ids w) v u)
                 (ways_between m u v)
      in cs \<noteq> [] \<and> (\<forall>w \<in> set cs. one_way w \<and> \<not> adjacent_in (node_ids w) u v))"

text \<open>
  The invariants of the specification's data model: every way of a node is the
  way the map stores under that identifier and lists the node; every way of the
  map has a positive speed, and every node it lists is there and has the way in
  its list.
\<close>

definition wf_map :: "ssmap \<Rightarrow> bool" where
  "wf_map m =
     ((\<forall>(i, x) \<in> set (enumerate 0 (nodes m)).
         case x of None \<Rightarrow> True
         | Some nd \<Rightarrow> \<forall>w \<in> set (nways nd). get_way m (wid w) = Inr w \<and> int i \<in> set (node_ids w)) \<and>
      (\<forall>x \<in> set (ways m).
         case x of None \<Rightarrow> True
         | Some w \<Rightarrow> 0 < max_speed w \<and> (\<forall>v \<in> set (node_ids w).
             case get_node m v of None \<Rightarrow> False | Some nv \<Rightarrow> w \<in> set (nways nv))))"

text \<open>Identifiers are dense: no entry of the map's two arrays is missing.\<close>

definition dense_map :: "ssmap \<Rightarrow> bool" where
  "dense_map m = (None \<notin> set (nodes m) \<and> None \<notin> set (ways m))"

text \<open>
  The travel time of a sequence in minutes, when the segment of each adjacent pair
  is chosen by \<open>pick\<close>; \<open>last_way\<close> and \<open>first_way\<close> choose the last and the first
  segment with \<open>step u v\<close> in the order of the first point's segment list.
\<close>

definition last_way :: "ssmap \<Rightarrow> int \<Rightarrow> int \<Rightarrow> way" where
  "last_way m u v = last (filter (step u v) (ways_between m u v))"

definition first_way :: "ssmap \<Rightarrow> int \<Rightarrow> int \<Rightarrow> way" where
  "first_way m u v = hd (filter (step u v) (ways_between m u v))"

definition node_distance :: "ssmap \<Rightarrow> int \<Rightarrow> int \<Rightarrow> real" where
  "node_distance m u v =
     (case (get_node m u, get_node m v) of
        (Some node1, Some node2) \<Rightarrow> distance_between_nodes node1 node2
      | _ \<Rightarrow> 0)"

definition travel_minutes :: "(ssmap \<Rightarrow> int \<Rightarrow> int \<Rightarrow> way) \<Rightarrow> ssmap \<Rightarrow> int list \<Rightarrow> dbl" where
  "travel_minutes pick m ids =
     times60 (foldl (\<lambda>t (u, v). add_quotient t (node_distance m u v) (max_speed (pick m u v)))
                (Fin 0) (zip ids (tl ids)))"

text \<open>
  The points of the two-name search: incident to a segment whose name contains the
  first text and to a different segment whose name contains the second.
\<close>

definition two_name_point :: "string \<Rightarrow> string \<Rightarrow> node \<Rightarrow> bool" where
  "two_name_point name1 name2 nd =
     (\<exists>a \<in> set (nways nd). \<exists>b \<in> set (nways nd).
        sublist name1 (name a) \<and> sublist name2 (name b) \<and> a \<noteq> b)"

definition two_name_points :: "ssmap \<Rightarrow> string \<Rightarrow> string \<Rightarrow> int list" where
  "two_name_points m name1 name2 =
     map (\<lambda>(k, x). int k)
       (filter (\<lambda>(k, x). case x of None \<Rightarrow> False | Some nd \<Rightarrow> two_name_point name1 name2 nd)
          (enumerate 0 (nodes m)))"

definition named_ways :: "string \<Rightarrow> nat \<Rightarrow> way option list \<Rightarrow> int list" where
  "named_ways n j ws =
     map (\<lambda>(k, x). int k)
       (filter (\<lambda>(k, x). case x of None \<Rightarrow> False | Some w \<Rightarrow> sublist n (name w)) (enumerate j ws))"

section \<open>Definitions for the proofs about the router\<close>

text \<open>
  The entries of the queue are the first \<open>hsize\<close> cells; \<open>heap_ok\<close> says that the
  size is within the allocated cells, whose number is the capacity.
\<close>

definition live :: "min_heap \<Rightarrow> heap_node list" where
  "live h = take (hsize h) (elements h)"

definition heap_ids :: "min_heap \<Rightarrow> int list" where
  "heap_ids h = map node_id (live h)"

definition heap_ok :: "min_heap \<Rightarrow> bool" where
  "heap_ok h = (hsize h \<le> length (elements h) \<and> capacity h = length (elements h))"

text \<open>
  The neighbours of \<open>u\<close> on way \<open>w\<close> that the router looks at: the entries next to
  the first position of \<open>u\<close> in the way's sequence, the one before it only on a
  two-way way. \<open>relax_all\<close> applies the router's update to a list of neighbours
  in turn.
\<close>

definition first_neighbours :: "way \<Rightarrow> int \<Rightarrow> int list" where
  "first_neighbours w u =
     (let ids = node_ids w;
          i = length (takeWhile (\<lambda>x. x \<noteq> u) ids)
      in (if \<not> one_way w \<and> 0 < i then [ids ! (i - 1)] else []) @
         (if Suc i < length ids then [ids ! Suc i] else []))"

fun relax_all :: "ssmap \<Rightarrow> int \<Rightarrow> node \<Rightarrow> way \<Rightarrow> int list \<Rightarrow> dijkstra_state \<Rightarrow> fault + dijkstra_state" where
  "relax_all m u node_u w [] st = Inr st"
| "relax_all m u node_u w (v # vs) st =
     (case relax m u node_u w v st of
        Inl f \<Rightarrow> Inl f
      | Inr st1 \<Rightarrow> relax_all m u node_u w vs st1)"

text \<open>
  The invariant of the main loop. \<open>link\<close> describes an entry \<open>parent[v] = u\<close>:
  \<open>u\<close> is settled, \<open>v\<close> is a neighbour of \<open>u\<close> on a way of \<open>u\<close>, the cost of \<open>v\<close> is
  the cost of \<open>u\<close> plus the time of that step, and \<open>u\<close> was settled before \<open>v\<close>
  (\<open>rank\<close> numbers the settled points in the order of settling).
\<close>

definition link :: "ssmap \<Rightarrow> int \<Rightarrow> dijkstra_state \<Rightarrow> (int \<Rightarrow> nat) \<Rightarrow> int \<Rightarrow> int \<Rightarrow> bool" where
  "link m s st rank u v =
     (0 \<le> u \<and> u < num_nodes m \<and> visited st ! nat u \<and> v \<noteq> s \<and>
      (visited st ! nat v \<longrightarrow> rank u < rank v) \<and>
      (\<exists>nu nv w du. nodes m ! nat u = Some nu \<and> nodes m ! nat v = Some nv \<and>
         w \<in> set (nways nu) \<and> u \<in> set (node_ids w) \<and> v \<in> set (first_neighbours w u) \<and>
         dist st ! nat u = Fin du \<and>
         dist st ! nat v = Fin (du + distance_between_nodes nu nv / max_speed w * 60)))"

definition tree_inv :: "ssmap \<Rightarrow> int \<Rightarrow> dijkstra_state \<Rightarrow> (int \<Rightarrow> nat) \<Rightarrow> bool" where
  "tree_inv m s st rank =
     (length (dist st) = length (nodes m) \<and> length (visited st) = length (nodes m) \<and>
      length (parent st) = length (nodes m) \<and>
      heap_ok (heap st) \<and> distinct (heap_ids (heap st)) \<and>
      (\<forall>v \<in> set (heap_ids (heap st)). 0 \<le> v \<and> v < num_nodes m \<and> \<not> visited st ! nat v \<and>
          (v = s \<or> parent st ! nat v \<noteq> - 1) \<and> nodes m ! nat v \<noteq> None) \<and>
      (\<forall>v. 0 \<le> v \<and> v < num_nodes m \<and> parent st ! nat v \<noteq> - 1 \<longrightarrow>
          link m s st rank (parent st ! nat v) v) \<and>
      (\<forall>v. 0 \<le> v \<and> v < num_nodes m \<and> visited st ! nat v \<longrightarrow> v = s \<or> parent st ! nat v \<noteq> - 1) \<and>
      0 \<le> s \<and> s < num_nodes m \<and> nodes m ! nat s \<noteq> None \<and> parent st ! nat s = - 1 \<and>
      dist st ! nat s = Fin 0 \<and> (visited st ! nat s \<or> heap_ids (heap st) = [s]))"

text \<open>
  A sequence from the start along \<open>parent\<close>: each entry is the parent of the next.
\<close>

definition tree_path :: "ssmap \<Rightarrow> int list \<Rightarrow> int \<Rightarrow> int list \<Rightarrow> bool" where
  "tree_path m par s P =
     (P \<noteq> [] \<and> hd P = s \<and> distinct P \<and>
      (\<forall>(u, v) \<in> set (zip P (tl P)). 0 \<le> v \<and> v < num_nodes m \<and> par ! nat v = u \<and> u \<noteq> - 1))"

text \<open>
  \<open>step_rel\<close> is the directed graph of the specification: one edge for every pair
  and segment of the map with \<open>step u v s\<close>. \<open>router_cost\<close> is the router's cost of the
  end point when the main loop has ended. \<open>same_speed\<close>: for each adjacent pair of
  the sequence, all segments with \<open>step\<close> between the two points have the speed of
  the one that the travel time uses.
\<close>

definition step_rel :: "ssmap \<Rightarrow> (int \<times> int) set" where
  "step_rel m = {(u, v). \<exists>w. Some w \<in> set (ways m) \<and> step u v w}"

definition router_cost :: "ssmap \<Rightarrow> int \<Rightarrow> int \<Rightarrow> dbl" where
  "router_cost m s e =
     (case dijkstra_loop m e (dijkstra_init m s) of
        Some (Inr st) \<Rightarrow> dist st ! nat e
      | _ \<Rightarrow> NonFinite)"

definition same_speed :: "ssmap \<Rightarrow> int list \<Rightarrow> bool" where
  "same_speed m P =
     (\<forall>(u, v) \<in> set (zip P (tl P)). \<forall>w \<in> set (ways_between m u v).
        step u v w \<longrightarrow> max_speed w = max_speed (last_way m u v))"


text \<open>
  The router's graph and the costs it compares. \<open>edge m x w v\<close>: \<open>w\<close> is a way of the
  point \<open>x\<close> and \<open>v\<close> is a neighbour of \<open>x\<close> that the router looks at on \<open>w\<close>;
  \<open>edge_cost\<close> is the time of that step in minutes. \<open>relaxed\<close>: the cost of \<open>v\<close> is
  at most the cost of \<open>x\<close> plus the step. \<open>walk_to m s x t\<close>: a sequence of such
  steps leads from \<open>s\<close> to \<open>x\<close> in \<open>t\<close> minutes.
\<close>

definition edge :: "ssmap \<Rightarrow> int \<Rightarrow> way \<Rightarrow> int \<Rightarrow> bool" where
  "edge m x w v =
     (0 \<le> x \<and> x < num_nodes m \<and>
      (\<exists>nx. nodes m ! nat x = Some nx \<and> w \<in> set (nways nx) \<and> v \<in> set (first_neighbours w x)))"

definition edge_cost :: "ssmap \<Rightarrow> int \<Rightarrow> way \<Rightarrow> int \<Rightarrow> real" where
  "edge_cost m x w v = node_distance m x v / max_speed w * 60"


inductive walk_to :: "ssmap \<Rightarrow> int \<Rightarrow> int \<Rightarrow> real \<Rightarrow> bool" for m :: ssmap and s :: int where
  walk_start: "walk_to m s s 0"
| walk_step: "walk_to m s x t \<Longrightarrow> edge m x w v \<Longrightarrow> walk_to m s v (t + edge_cost m x w v)"






section \<open>Example maps\<close>

text \<open>
  The map of the specification's scenarios: points 0..4 and the segments Main
  (two-way, 0 1 2), Main St (one-way, 2 3) and Oak (two-way, 1 4). The points lie
  on the equator, one degree apart.
\<close>

definition way_main :: way where
  "way_main = \<lparr>wid = 0, name = ''Main'', max_speed = 60, one_way = False, node_ids = [0, 1, 2]\<rparr>"

definition way_main_st :: way where
  "way_main_st = \<lparr>wid = 1, name = ''Main St'', max_speed = 60, one_way = True, node_ids = [2, 3]\<rparr>"

definition way_oak :: way where
  "way_oak = \<lparr>wid = 2, name = ''Oak'', max_speed = 30, one_way = False, node_ids = [1, 4]\<rparr>"

definition spec_map :: ssmap where
  "spec_map =
     \<lparr>nodes = [Some \<lparr>nid = 0, lat = 0, lon = 0, nways = [way_main]\<rparr>,
               Some \<lparr>nid = 1, lat = 0, lon = 1, nways = [way_main, way_oak]\<rparr>,
               Some \<lparr>nid = 2, lat = 0, lon = 2, nways = [way_main, way_main_st]\<rparr>,
               Some \<lparr>nid = 3, lat = 0, lon = 3, nways = [way_main_st]\<rparr>,
               Some \<lparr>nid = 4, lat = 0, lon = 4, nways = [way_oak]\<rparr>],
      ways = [Some way_main, Some way_main_st, Some way_oak]\<rparr>"

text \<open>
  Two points one degree apart on the equator, joined by two two-way segments: the
  first with speed 60, the second with speed 30.
\<close>

definition way_fast :: way where
  "way_fast = \<lparr>wid = 0, name = ''Fast'', max_speed = 60, one_way = False, node_ids = [0, 1]\<rparr>"

definition way_slow :: way where
  "way_slow = \<lparr>wid = 1, name = ''Slow'', max_speed = 30, one_way = False, node_ids = [0, 1]\<rparr>"

definition parallel_map :: ssmap where
  "parallel_map =
     \<lparr>nodes = [Some \<lparr>nid = 0, lat = 0, lon = 0, nways = [way_fast, way_slow]\<rparr>,
               Some \<lparr>nid = 1, lat = 0, lon = 1, nways = [way_fast, way_slow]\<rparr>],
      ways = [Some way_fast, Some way_slow]\<rparr>"

text \<open>
  A closed way 0, 1, 2, 0 (two-way, speed 60) through three points on the equator
  at longitudes 0, 2 and 1.
\<close>

definition way_ring :: way where
  "way_ring = \<lparr>wid = 0, name = ''Ring'', max_speed = 60, one_way = False, node_ids = [0, 1, 2, 0]\<rparr>"

definition ring_map :: ssmap where
  "ring_map =
     \<lparr>nodes = [Some \<lparr>nid = 0, lat = 0, lon = 0, nways = [way_ring]\<rparr>,
               Some \<lparr>nid = 1, lat = 0, lon = 2, nways = [way_ring]\<rparr>,
               Some \<lparr>nid = 2, lat = 0, lon = 1, nways = [way_ring]\<rparr>],
      ways = [Some way_ring]\<rparr>"

text \<open>
  A two-way way 0, 1, 2, 0, 3 that comes back to point 0 before it goes on to 3;
  the points lie on the equator, one degree apart.
\<close>

definition way_revisit :: way where
  "way_revisit = \<lparr>wid = 0, name = ''Loop'', max_speed = 60, one_way = False, node_ids = [0, 1, 2, 0, 3]\<rparr>"

definition node_revisit :: node where
  "node_revisit = \<lparr>nid = 0, lat = 0, lon = 0, nways = [way_revisit]\<rparr>"

definition revisit_map :: ssmap where
  "revisit_map =
     \<lparr>nodes = [Some node_revisit,
               Some \<lparr>nid = 1, lat = 0, lon = 1, nways = [way_revisit]\<rparr>,
               Some \<lparr>nid = 2, lat = 0, lon = 2, nways = [way_revisit]\<rparr>,
               Some \<lparr>nid = 3, lat = 0, lon = 3, nways = [way_revisit]\<rparr>],
      ways = [Some way_revisit]\<rparr>"

text \<open>
  Three points on the equator at longitudes 0, 2 and 1. Points 0 and 1 are joined
  by two two-way segments, A with speed 120 and B with speed 10; the two-way
  segment C with speed 60 leads from 0 over 2 to 1.
\<close>

definition way_a :: way where
  "way_a = \<lparr>wid = 0, name = ''A'', max_speed = 120, one_way = False, node_ids = [0, 1]\<rparr>"

definition way_b :: way where
  "way_b = \<lparr>wid = 1, name = ''B'', max_speed = 10, one_way = False, node_ids = [0, 1]\<rparr>"

definition way_c :: way where
  "way_c = \<lparr>wid = 2, name = ''C'', max_speed = 60, one_way = False, node_ids = [0, 2, 1]\<rparr>"

definition detour_map :: ssmap where
  "detour_map =
     \<lparr>nodes = [Some \<lparr>nid = 0, lat = 0, lon = 0, nways = [way_a, way_b, way_c]\<rparr>,
               Some \<lparr>nid = 1, lat = 0, lon = 2, nways = [way_a, way_b, way_c]\<rparr>,
               Some \<lparr>nid = 2, lat = 0, lon = 1, nways = [way_c]\<rparr>],
      ways = [Some way_a, Some way_b, Some way_c]\<rparr>"

text \<open>A queue of capacity 1 that holds one entry.\<close>

definition full_heap :: min_heap where
  "full_heap = \<lparr>elements = [\<lparr>node_id = 0, distance = 1\<rparr>], hsize = 1, capacity = 1\<rparr>"

section \<open>Properties of the priority queue\<close>

text \<open>
  Claim C9. On an empty queue \<open>extract_min\<close> returns the entry with node identifier
  -1 and distance 0 and leaves the queue as it was (the size stays 0). The
  statement holds for every content of the cell array, the empty array included,
  so the result does not depend on any cell: none is read.
\<close>

theorem extract_min_empty:
  "extract_min \<lparr>elements = es, hsize = 0, capacity = c\<rparr> =
     (\<lparr>node_id = - 1, distance = 0\<rparr>, \<lparr>elements = es, hsize = 0, capacity = c\<rparr>)"
  by (simp add: extract_min_def)

text \<open>
  Claim C8, as amended. A push on a queue whose size equals its capacity is
  ignored: \<open>insert_min_heap\<close> returns the queue as it was, with the same entries,
  size and capacity. It has no other result, so its caller goes on.
\<close>

theorem insert_full_ignored:
  "hsize h = capacity h \<Longrightarrow> insert_min_heap h v d = h"
  by (simp add: insert_min_heap_def)

theorem insert_full_ignored_witness:
  "hsize full_heap = capacity full_heap \<and> insert_min_heap full_heap 7 0 = full_heap"
proof -
  have h: "hsize full_heap = capacity full_heap"
    by (simp add: full_heap_def)
  show ?thesis
    using h insert_full_ignored [OF h, of 7 0] by simp
qed

text \<open>
  Claim C8 as stated fails: nothing is aborted. After the push on the full queue
  the entry for point 7 is not in the queue, and the next \<open>extract_min\<close> on the
  returned queue gives the old root as if no push had been made.
\<close>

theorem push_on_full_queue_continues:
  "hsize full_heap = capacity full_heap \<and>
   \<not> is_in_min_heap (insert_min_heap full_heap 7 0) 7 \<and>
   extract_min (insert_min_heap full_heap 7 0) = extract_min full_heap \<and>
   fst (extract_min (insert_min_heap full_heap 7 0)) = \<lparr>node_id = 0, distance = 1\<rparr>"
  by (simp add: full_heap_def insert_min_heap_def is_in_min_heap_def is_in_min_heap_from.simps
      extract_min_def min_heapify.simps)

section \<open>Distance on the equator\<close>

lemma distance_equator:
  assumes "lat x = 0" "lat y = 0" "\<bar>lon y - lon x\<bar> < 180"
  shows "distance_between_nodes x y = 6371 * (\<bar>lon y - lon x\<bar> * pi / 180)"
proof -
  define t where "t = (lon y - lon x) * pi / 360"
  have tb: "\<bar>t\<bar> < pi / 2"
  proof -
    have "\<bar>t\<bar> = \<bar>lon y - lon x\<bar> * pi / 360" by (simp add: t_def abs_mult)
    also have "\<dots> < 180 * pi / 360" using assms(3) by (simp add: divide_strict_right_mono)
    finally show ?thesis by simp
  qed
  have cpos: "0 < cos t" using tb by (intro cos_gt_zero_pi) auto
  have a: "(sin (d2r (lon y - lon x) / 2))\<^sup>2 = (sin t)\<^sup>2" by (simp add: d2r_def t_def)
  have d0: "d2r 0 = 0" by (simp add: d2r_def)
  have s1: "sqrt ((sin t)\<^sup>2) = \<bar>sin t\<bar>" by simp
  have s2: "sqrt (1 - (sin t)\<^sup>2) = cos t"
  proof -
    have "1 - (sin t)\<^sup>2 = (cos t)\<^sup>2" using sin_cos_squared_add[of t] by linarith
    then show ?thesis using cpos by simp
  qed
  have abs_sin: "\<bar>sin t\<bar> = sin \<bar>t\<bar>"
  proof (cases "0 \<le> t")
    case True then have "0 \<le> sin t" using tb by (intro sin_ge_zero) auto
    then show ?thesis using True by simp
  next
    case False
    then have "0 \<le> sin (- t)" using tb by (intro sin_ge_zero) auto
    then show ?thesis using False by simp
  qed
  have "atan2 \<bar>sin t\<bar> (cos t) = arctan (tan \<bar>t\<bar>)"
    using cpos by (simp add: atan2_def abs_sin tan_def)
  also have "\<dots> = \<bar>t\<bar>" using tb by (intro arctan_tan) auto
  finally have at: "atan2 \<bar>sin t\<bar> (cos t) = \<bar>t\<bar>" .
  have "distance_between_nodes x y = 6371 * (2 * \<bar>t\<bar>)"
    using assms(1,2) d0 by (simp add: distance_between_nodes_def Let_def a s1 s2 at del: real_sqrt_abs)
  also have "\<dots> = 6371 * (\<bar>lon y - lon x\<bar> * pi / 180)"
    by (simp add: t_def abs_mult)
  finally show ?thesis .
qed

lemma haversine_nonneg:
  fixes a b l :: real
  shows "0 \<le> (sin ((b - a) / 2))\<^sup>2 + cos a * cos b * (sin (l / 2))\<^sup>2"
proof -
  define q where "q = (sin (l / 2))\<^sup>2"
  have q: "0 \<le> q" "q \<le> 1"
    by (simp_all add: q_def abs_square_le_1)
  have A1: "(cos ((a + b) / 2))\<^sup>2 = (1 + cos (a + b)) / 2"
  proof -
    have "cos (2 * ((a + b) / 2)) = 2 * (cos ((a + b) / 2))\<^sup>2 - 1"
      by (rule cos_double_cos)
    moreover have "2 * ((a + b) / 2) = a + b" by simp
    ultimately have "cos (a + b) = 2 * (cos ((a + b) / 2))\<^sup>2 - 1"
      by (simp only:)
    then show ?thesis by argo
  qed
  have A0: "(sin ((b - a) / 2))\<^sup>2 = (1 - cos (b - a)) / 2"
  proof -
    have "cos (2 * ((b - a) / 2)) = 1 - 2 * (sin ((b - a) / 2))\<^sup>2"
      by (rule cos_double_sin)
    moreover have "2 * ((b - a) / 2) = b - a" by simp
    ultimately have "cos (b - a) = 1 - 2 * (sin ((b - a) / 2))\<^sup>2"
      by (simp only:)
    then show ?thesis by argo
  qed
  have "cos a * cos b = (cos ((a + b) / 2))\<^sup>2 - (sin ((b - a) / 2))\<^sup>2"
    unfolding A0 A1 by (simp add: cos_add cos_diff field_simps)
  then have "(sin ((b - a) / 2))\<^sup>2 + cos a * cos b * q =
      (1 - q) * (sin ((b - a) / 2))\<^sup>2 + q * (cos ((a + b) / 2))\<^sup>2"
    by (simp only:) (simp add: algebra_simps)
  also have "0 \<le> \<dots>"
    using q by (intro add_nonneg_nonneg mult_nonneg_nonneg) simp_all
  finally show ?thesis by (simp add: q_def)
qed

lemma atan2_nonneg: "0 \<le> y \<Longrightarrow> 0 \<le> atan2 y x"
proof -
  assume y: "0 \<le> y"
  consider "0 < x" | "x < 0" | "x = 0" by linarith
  then show ?thesis
  proof cases
    case 1
    then have "0 \<le> y / x" using y by simp
    then show ?thesis using 1 by (simp add: atan2_def zero_le_arctan_iff)
  next
    case 2
    have "- (pi / 2) < arctan (y / x)" by (rule arctan_lbound)
    then have "0 \<le> arctan (y / x) + pi" using pi_gt_zero by linarith
    then show ?thesis using 2 y by (simp add: atan2_def)
  next
    case 3
    then show ?thesis using y by (simp add: atan2_def)
  qed
qed

lemma distance_nonneg: "0 \<le> distance_between_nodes x y"
proof -
  have d: "d2r (lat y - lat x) = d2r (lat y) - d2r (lat x)"
    by (simp add: d2r_def field_simps)
  have "0 \<le> (sin (d2r (lat y - lat x) / 2))\<^sup>2 +
      cos (d2r (lat x)) * cos (d2r (lat y)) * (sin (d2r (lon y - lon x) / 2))\<^sup>2"
    unfolding d by (rule haversine_nonneg)
  then have "0 \<le> sqrt ((sin (d2r (lat y - lat x) / 2))\<^sup>2 +
      cos (d2r (lat x)) * cos (d2r (lat y)) * (sin (d2r (lon y - lon x) / 2))\<^sup>2)"
    by simp
  then have "0 \<le> atan2 (sqrt ((sin (d2r (lat y - lat x) / 2))\<^sup>2 +
      cos (d2r (lat x)) * cos (d2r (lat y)) * (sin (d2r (lon y - lon x) / 2))\<^sup>2)) z" for z
    by (rule atan2_nonneg)
  then show ?thesis
    by (simp add: distance_between_nodes_def Let_def)
qed

section \<open>The entries of the queue under its operations\<close>

lemma length_swap [simp]: "length (swap_heap_node es a b) = length es"
  by (simp add: swap_heap_node_def Let_def)

lemma mset_take_swap:
  assumes "a < k" "b < k" "k \<le> length es"
  shows "mset (take k (swap_heap_node es a b)) = mset (take k es)"
proof -
  have "take k (swap_heap_node es a b) = (take k es)[a := take k es ! b, b := take k es ! a]"
    using assms by (simp add: swap_heap_node_def Let_def take_update_swap)
  moreover have "mset ((take k es)[a := take k es ! b, b := take k es ! a]) = mset (take k es)"
    using assms by (intro mset_swap) simp_all
  ultimately show ?thesis by simp
qed

lemma sift_up_props:
  "i < hsize h \<Longrightarrow> hsize h \<le> length (elements h) \<Longrightarrow>
   mset (live (sift_up h i)) = mset (live h) \<and> hsize (sift_up h i) = hsize h \<and>
   capacity (sift_up h i) = capacity h \<and> length (elements (sift_up h i)) = length (elements h)"
proof (induction h i rule: sift_up.induct)
  case (1 h i)
  show ?case
  proof (cases "i \<noteq> 0 \<and> distance (elements h ! ((i - 1) div 2)) > distance (elements h ! i)")
    case True
    let ?p = "(i - 1) div 2"
    let ?h = "h\<lparr>elements := swap_heap_node (elements h) i ?p\<rparr>"
    have p: "?p < hsize h" using 1(2) by simp
    have "mset (live (sift_up ?h ?p)) = mset (live ?h) \<and> hsize (sift_up ?h ?p) = hsize ?h \<and>
       capacity (sift_up ?h ?p) = capacity ?h \<and> length (elements (sift_up ?h ?p)) = length (elements ?h)"
      using True p 1(3) by (intro 1(1)) simp_all
    moreover have "mset (live ?h) = mset (live h)"
      using mset_take_swap[OF 1(2) p 1(3)] by (simp add: live_def)
    moreover have "sift_up h i = sift_up ?h ?p"
      using True by (subst sift_up.simps) simp
    ultimately show ?thesis by simp
  next
    case False
    then have "sift_up h i = h" by (subst sift_up.simps) auto
    then show ?thesis by simp
  qed
qed

lemma min_heapify_props:
  "hsize h \<le> length (elements h) \<Longrightarrow>
   mset (live (min_heapify h idx)) = mset (live h) \<and> hsize (min_heapify h idx) = hsize h \<and>
   capacity (min_heapify h idx) = capacity h \<and>
   length (elements (min_heapify h idx)) = length (elements h)"
proof (induction h idx rule: min_heapify.induct)
  case (1 h idx)
  define left where "left = 2 * idx + 1"
  define right where "right = 2 * idx + 2"
  define smallest1 where "smallest1 =
     (if left < hsize h \<and> distance (elements h ! left) < distance (elements h ! idx) then left else idx)"
  define smallest where "smallest =
     (if right < hsize h \<and> distance (elements h ! right) < distance (elements h ! smallest1)
      then right else smallest1)"
  have unf: "min_heapify h idx =
     (if smallest \<noteq> idx
      then min_heapify (h\<lparr>elements := swap_heap_node (elements h) idx smallest\<rparr>) smallest else h)"
    by (subst min_heapify.simps) (simp add: Let_def left_def right_def smallest1_def smallest_def)
  show ?case
  proof (cases "smallest \<noteq> idx")
    case True
    let ?h = "h\<lparr>elements := swap_heap_node (elements h) idx smallest\<rparr>"
    from True have sm: "smallest < hsize h" "idx < smallest"
      by (auto simp: smallest_def smallest1_def left_def right_def split: if_splits)
    have "mset (live (min_heapify ?h smallest)) = mset (live ?h) \<and>
       hsize (min_heapify ?h smallest) = hsize ?h \<and> capacity (min_heapify ?h smallest) = capacity ?h \<and>
       length (elements (min_heapify ?h smallest)) = length (elements ?h)"
      using True 1(2) 1(1)[OF refl refl refl refl refl]
      unfolding smallest_def smallest1_def left_def right_def by simp
    moreover have "mset (live ?h) = mset (live h)"
      using mset_take_swap[of idx "hsize h" smallest "elements h"] sm 1(2) by (simp add: live_def)
    ultimately show ?thesis using True unf by simp
  next
    case False
    then show ?thesis using unf by simp
  qed
qed

lemma map_update_same: "f y = f (xs ! i) \<Longrightarrow> map f (xs[i := y]) = map f xs"
  by (induction xs arbitrary: i) (auto split: nat.splits)

lemma heap_ids_mset: "mset (heap_ids h) = image_mset node_id (mset (live h))"
  by (simp add: heap_ids_def)

lemma extract_min_props:
  assumes "0 < hsize h" "heap_ok h"
  shows "mset (live h) = add_mset (fst (extract_min h)) (mset (live (snd (extract_min h))))"
    and "hsize (snd (extract_min h)) = hsize h - 1"
    and "heap_ok (snd (extract_min h))"
    and "capacity (snd (extract_min h)) = capacity h"
    and "fst (extract_min h) = elements h ! 0"
proof -
  define es where "es = elements h"
  define k where "k = hsize h - 1"
  define h2 where "h2 = h\<lparr>elements := es[0 := es ! k], hsize := k\<rparr>"
  have kk: "hsize h = Suc k" "k < length es"
    using assms by (auto simp: k_def es_def heap_ok_def)
  have ex: "extract_min h = (es ! 0, min_heapify h2 0)"
    using assms(1) by (simp add: extract_min_def Let_def h2_def es_def k_def)
  have h2ok: "hsize h2 \<le> length (elements h2)"
    using kk by (simp add: h2_def)
  note mh = min_heapify_props[OF h2ok, of 0]
  have l1: "mset (live h) = add_mset (es ! k) (mset (take k es))"
    using kk by (simp add: live_def es_def[symmetric] take_Suc_conv_app_nth)
  have l2: "add_mset (es ! 0) (mset (live h2)) = add_mset (es ! k) (mset (take k es))"
  proof (cases "k = 0")
    case True
    then show ?thesis by (simp add: live_def h2_def)
  next
    case False
    then have "live h2 = (take k es)[0 := es ! k]"
      by (simp add: live_def h2_def take_update_swap)
    moreover have t0: "take k es ! 0 = es ! 0" using False by simp
    moreover have "take k es ! 0 \<in> set (take k es)"
      using False kk by (intro nth_mem) simp
    then have "es ! 0 \<in># mset (take k es)"
      using t0 by simp
    ultimately show ?thesis
      using False kk by (simp add: mset_update)
  qed
  show "mset (live h) = add_mset (fst (extract_min h)) (mset (live (snd (extract_min h))))"
    using l1 l2 mh by (simp add: ex)
  show "hsize (snd (extract_min h)) = hsize h - 1"
    using mh by (simp add: ex h2_def k_def)
  show "heap_ok (snd (extract_min h))"
    using mh assms(2) kk by (simp add: ex heap_ok_def h2_def es_def)
  show "capacity (snd (extract_min h)) = capacity h"
    using mh by (simp add: ex h2_def)
  show "fst (extract_min h) = elements h ! 0"
    by (simp add: ex es_def)
qed

lemma insert_min_heap_props:
  assumes "heap_ok h" "hsize h \<noteq> capacity h"
  shows "mset (live (insert_min_heap h v d)) = add_mset \<lparr>node_id = v, distance = d\<rparr> (mset (live h))"
    and "hsize (insert_min_heap h v d) = hsize h + 1"
    and "heap_ok (insert_min_heap h v d)"
    and "capacity (insert_min_heap h v d) = capacity h"
proof -
  define k where "k = hsize h"
  define h2 where "h2 = h\<lparr>hsize := k + 1, elements := (elements h)[k := \<lparr>node_id = v, distance = d\<rparr>]\<rparr>"
  have k: "k < length (elements h)"
    using assms by (simp add: heap_ok_def k_def)
  have ins: "insert_min_heap h v d = sift_up h2 k"
    using assms(2) by (simp add: insert_min_heap_def Let_def h2_def k_def)
  have su: "mset (live (sift_up h2 k)) = mset (live h2) \<and> hsize (sift_up h2 k) = hsize h2 \<and>
     capacity (sift_up h2 k) = capacity h2 \<and> length (elements (sift_up h2 k)) = length (elements h2)"
    using k by (intro sift_up_props) (simp_all add: h2_def)
  have l: "live h2 = live h @ [\<lparr>node_id = v, distance = d\<rparr>]"
    using k by (simp add: live_def h2_def k_def[symmetric] take_Suc_conv_app_nth)
  show "mset (live (insert_min_heap h v d)) = add_mset \<lparr>node_id = v, distance = d\<rparr> (mset (live h))"
    using su l by (simp add: ins)
  show "hsize (insert_min_heap h v d) = hsize h + 1"
    using su by (simp add: ins h2_def k_def)
  show "heap_ok (insert_min_heap h v d)"
    using su assms(1) k by (simp add: ins heap_ok_def h2_def)
  show "capacity (insert_min_heap h v d) = capacity h"
    using su by (simp add: ins h2_def)
qed

lemma decrease_key_from_props:
  "hsize h \<le> length (elements h) \<Longrightarrow>
   mset (heap_ids (decrease_key_from h v d i)) = mset (heap_ids h) \<and>
   hsize (decrease_key_from h v d i) = hsize h \<and>
   capacity (decrease_key_from h v d i) = capacity h \<and>
   length (elements (decrease_key_from h v d i)) = length (elements h)"
proof (induction h v d i rule: decrease_key_from.induct)
  case (1 h v d i)
  show ?case
  proof (cases "i < hsize h")
    case False
    then have "decrease_key_from h v d i = h" by (subst decrease_key_from.simps) simp
    then show ?thesis by simp
  next
    case True
    show ?thesis
    proof (cases "node_id (elements h ! i) = v")
      case False
      then have "decrease_key_from h v d i = decrease_key_from h v d (i + 1)"
        using True by (subst decrease_key_from.simps) simp
      then show ?thesis using 1(1)[OF True False 1(2)] by simp
    next
      case hit: True
      let ?h = "h\<lparr>elements := (elements h)[i := (elements h ! i)\<lparr>distance := d\<rparr>]\<rparr>"
      have dk: "decrease_key_from h v d i = sift_up ?h i"
        using True hit by (subst decrease_key_from.simps) simp
      have su: "mset (live (sift_up ?h i)) = mset (live ?h) \<and> hsize (sift_up ?h i) = hsize ?h \<and>
         capacity (sift_up ?h i) = capacity ?h \<and> length (elements (sift_up ?h i)) = length (elements ?h)"
        using True 1(2) by (intro sift_up_props) simp_all
      have "map node_id ((elements h)[i := (elements h ! i)\<lparr>distance := d\<rparr>]) = map node_id (elements h)"
        by (rule map_update_same) simp
      then have "heap_ids ?h = heap_ids h"
        by (simp add: heap_ids_def live_def take_map[symmetric])
      then have "image_mset node_id (mset (live ?h)) = image_mset node_id (mset (live h))"
        by (simp add: heap_ids_mset[symmetric])
      then show ?thesis
        using su by (simp add: dk heap_ids_mset)
    qed
  qed
qed

lemma decrease_key_props:
  assumes "heap_ok h"
  shows "mset (heap_ids (decrease_key h v d)) = mset (heap_ids h)"
    and "hsize (decrease_key h v d) = hsize h"
    and "heap_ok (decrease_key h v d)"
    and "capacity (decrease_key h v d) = capacity h"
  using decrease_key_from_props[of h v d 0] assms
  by (simp_all add: decrease_key_def heap_ok_def)

lemma is_in_min_heap_from_iff:
  "hsize h \<le> length (elements h) \<Longrightarrow>
   is_in_min_heap_from h v i = (\<exists>j. i \<le> j \<and> j < hsize h \<and> node_id (elements h ! j) = v)"
proof (induction h v i rule: is_in_min_heap_from.induct)
  case (1 h v i)
  show ?case
  proof (cases "i < hsize h \<and> node_id (elements h ! i) \<noteq> v")
    case True
    then have "is_in_min_heap_from h v i = is_in_min_heap_from h v (i + 1)"
      by (subst is_in_min_heap_from.simps) simp
    also have "\<dots> = (\<exists>j. i + 1 \<le> j \<and> j < hsize h \<and> node_id (elements h ! j) = v)"
      using True 1(2) by (intro 1(1)) simp_all
    also have "\<dots> = (\<exists>j. i \<le> j \<and> j < hsize h \<and> node_id (elements h ! j) = v)"
    proof -
      have "(i + 1 \<le> j \<and> j < hsize h \<and> node_id (elements h ! j) = v) =
            (i \<le> j \<and> j < hsize h \<and> node_id (elements h ! j) = v)" for j
        using True by (cases "j = i") auto
      then show ?thesis by simp
    qed
    finally show ?thesis .
  next
    case False
    then show ?thesis
      by (subst is_in_min_heap_from.simps) auto
  qed
qed

lemma is_in_min_heap_iff:
  assumes "heap_ok h"
  shows "is_in_min_heap h v = (v \<in> set (heap_ids h))"
proof -
  have "is_in_min_heap h v = (\<exists>j < hsize h. node_id (elements h ! j) = v)"
    using assms by (simp add: is_in_min_heap_def is_in_min_heap_from_iff heap_ok_def)
  also have "\<dots> = (v \<in> set (heap_ids h))"
  proof -
    have l: "length (heap_ids h) = hsize h"
      using assms by (simp add: heap_ids_def live_def heap_ok_def)
    have n: "heap_ids h ! j = node_id (elements h ! j)" if "j < hsize h" for j
      using that assms by (simp add: heap_ids_def live_def heap_ok_def)
    show ?thesis
      unfolding in_set_conv_nth l using n by auto
  qed
  finally show ?thesis .
qed

section \<open>The order of the queue under its operations\<close>















section \<open>Properties of the travel time\<close>

lemma pass_exist_find:
  "pass_exist m ids = map_option NodeNotExist (find (\<lambda>i. get_node m i = None) ids)"
  by (induction ids) (auto simp: get_node_def)

lemma count_eq_count_list: "count_eq ys x c = c + count_list ys x"
  by (induction ys arbitrary: c) auto

lemma pass_unique_find:
  "pass_unique all_ids ids = map_option NodeRepeated (find (\<lambda>i. count_list all_ids i > 1) ids)"
  by (induction ids) (auto simp: count_eq_count_list)

lemma roads_k_eq: "roads_k w1 ws2 flag = (flag \<or> wid w1 \<in> wid ` set ws2)"
  by (induction ws2 arbitrary: flag) auto

lemma roads_j_eq: "roads_j ws1 ws2 flag = (flag \<or> (\<exists>w1 \<in> set ws1. wid w1 \<in> wid ` set ws2))"
  by (induction ws1 arbitrary: flag) (auto simp: roads_k_eq)

lemma roads_j_common: "roads_j (nways n1) (nways n2) False = (common_ways n1 n2 \<noteq> [])"
  by (auto simp: roads_j_eq common_ways_def filter_empty_conv)

lemma direct_l_eq:
  "direct_l ids c n flag = (flag \<or> adjacent_in ids c n \<or> adjacent_in ids n c)"
  by (induction ids c n flag rule: direct_l.induct) (auto simp: adjacent_in_def)

lemma direct_k_eq:
  "direct_k w1 ws2 c n flag =
     (flag \<or> (wid w1 \<in> wid ` set ws2 \<and> (adjacent_in (node_ids w1) c n \<or> adjacent_in (node_ids w1) n c)))"
  by (induction ws2 arbitrary: flag) (auto simp: direct_l_eq)

lemma direct_j_eq:
  "direct_j ws1 ws2 c n flag =
     (flag \<or> (\<exists>w1 \<in> set ws1. wid w1 \<in> wid ` set ws2 \<and>
                 (adjacent_in (node_ids w1) c n \<or> adjacent_in (node_ids w1) n c)))"
  by (induction ws1 arbitrary: flag) (auto simp: direct_k_eq)

lemma oneway_l_eq:
  "oneway_l w ids c n flag =
     (flag \<or> adjacent_in ids c n \<or> (\<not> one_way w \<and> adjacent_in ids n c))"
  by (induction w ids c n flag rule: oneway_l.induct) (auto simp: adjacent_in_def)

lemma oneway_k_eq:
  "oneway_k w1 ws2 c n flag = (flag \<or> (wid w1 \<in> wid ` set ws2 \<and> step c n w1))"
  by (induction ws2 arbitrary: flag) (auto simp: oneway_l_eq step_def)

lemma oneway_j_eq:
  "oneway_j ws1 ws2 c n flag = (flag \<or> (\<exists>w1 \<in> set ws1. wid w1 \<in> wid ` set ws2 \<and> step c n w1))"
  by (induction ws1 arbitrary: flag) (auto simp: oneway_k_eq)

lemma wf_map_node:
  assumes "wf_map m" "k < length (nodes m)" "nodes m ! k = Some nd" "w \<in> set (nways nd)"
  shows "get_way m (wid w) = Inr w" and "int k \<in> set (node_ids w)"
proof -
  have "(k, Some nd) \<in> set (enumerate 0 (nodes m))"
    using assms(2,3) by (simp add: in_set_enumerate_eq)
  with assms(1) have "\<forall>w \<in> set (nways nd). get_way m (wid w) = Inr w \<and> int k \<in> set (node_ids w)"
    unfolding wf_map_def by fastforce
  with assms(4) show "get_way m (wid w) = Inr w" and "int k \<in> set (node_ids w)"
    by auto
qed

lemma wf_map_way:
  assumes "wf_map m" "j < length (ways m)" "ways m ! j = Some w" "v \<in> set (node_ids w)"
  shows "\<exists>nv. get_node m v = Some nv \<and> w \<in> set (nways nv)" and "0 < max_speed w"
proof -
  have "Some w \<in> set (ways m)"
    using assms(2,3) by (metis nth_mem)
  with assms(1) have "0 < max_speed w \<and> (\<forall>v \<in> set (node_ids w).
      case get_node m v of None \<Rightarrow> False | Some nv \<Rightarrow> w \<in> set (nways nv))"
    unfolding wf_map_def by fastforce
  with assms(4) show "\<exists>nv. get_node m v = Some nv \<and> w \<in> set (nways nv)" and "0 < max_speed w"
    by (auto split: option.splits)
qed

lemma get_node_SomeD:
  "get_node m u = Some nd \<Longrightarrow> 0 \<le> u \<and> nat u < length (nodes m) \<and> nodes m ! nat u = Some nd"
  by (auto simp: get_node_def num_nodes_def split: if_splits)

lemma get_way_InrD:
  "get_way m i = Inr w \<Longrightarrow> 0 \<le> i \<and> nat i < length (ways m) \<and> ways m ! nat i = Some w"
  by (auto simp: get_way_def num_ways_def split: if_splits option.splits)

lemma pass_roads_find:
  "\<forall>i \<in> set ids. get_node m i \<noteq> None \<Longrightarrow>
   pass_roads m ids =
     Inr (map_option (\<lambda>(u, v). NoRoads u v)
            (find (\<lambda>(u, v). ways_between m u v = []) (zip ids (tl ids))))"
proof (induction m ids rule: pass_roads.induct)
  case (1 m c n rest)
  then show ?case
    by (auto simp: ways_between_def roads_j_common)
qed simp_all

lemma direct_j_common:
  "direct_j (nways n1) (nways n2) c n False =
     (\<exists>w \<in> set (common_ways n1 n2). adjacent_in (node_ids w) c n \<or> adjacent_in (node_ids w) n c)"
  by (auto simp: direct_j_eq common_ways_def)

lemma pass_direct_find:
  "\<forall>i \<in> set ids. get_node m i \<noteq> None \<Longrightarrow>
   pass_direct m ids =
     Inr (map_option (\<lambda>(u, v). NotDirect u v)
            (find (\<lambda>(u, v). \<not> (\<exists>w \<in> set (ways_between m u v).
                      adjacent_in (node_ids w) u v \<or> adjacent_in (node_ids w) v u))
               (zip ids (tl ids))))"
proof (induction m ids rule: pass_direct.induct)
  case (1 m c n rest)
  then show ?case
    by (auto simp: ways_between_def direct_j_common)
qed simp_all

lemma oneway_j_common:
  "oneway_j (nways n1) (nways n2) c n False = (\<exists>w \<in> set (common_ways n1 n2). step c n w)"
  by (auto simp: oneway_j_eq common_ways_def)

lemma pass_oneway_find:
  "\<forall>i \<in> set ids. get_node m i \<noteq> None \<Longrightarrow>
   pass_oneway m ids =
     Inr (map_option (\<lambda>(u, v). Reverse u v)
            (find (\<lambda>(u, v). \<not> (\<exists>w \<in> set (ways_between m u v). step u v w)) (zip ids (tl ids))))"
proof (induction m ids rule: pass_oneway.induct)
  case (1 m c n rest)
  then show ?case
    by (auto simp: ways_between_def oneway_j_common)
qed simp_all

lemma find_None_all: "find P xs = None \<Longrightarrow> \<forall>x \<in> set xs. \<not> P x"
  by (simp add: find_None_iff)

lemma travel_time_by_passes:
  "ssmap_path_travel_time m ids =
     (case validation_error m ids of
        Some e \<Rightarrow> Inr ([e], Fin (- 1))
      | None \<Rightarrow> (case sum_time m ids (Fin 0) of Inl f \<Rightarrow> Inl f | Inr t \<Rightarrow> Inr ([], times60 t)))"
proof (cases "find (\<lambda>i. get_node m i = None) ids")
  case (Some i)
  then show ?thesis
    by (simp add: ssmap_path_travel_time_def validation_error_def pass_exist_find)
next
  case None
  then have ex: "\<forall>i \<in> set ids. get_node m i \<noteq> None"
    by (auto dest: find_None_all)
  show ?thesis
    using None
    by (simp add: ssmap_path_travel_time_def validation_error_def pass_exist_find
        pass_unique_find pass_roads_find[OF ex] pass_direct_find[OF ex] pass_oneway_find[OF ex]
        split: option.splits prod.splits)
qed

text \<open>
  Claim C4. \<open>ssmap_path_travel_time\<close> checks existence, uniqueness, co-membership,
  direct adjacency and directionality in this order. With a first offending
  condition \<open>e\<close> (as \<open>validation_error\<close> finds it, an earlier kind before a later
  one) it prints the one line \<open>e\<close> and returns -1.0; without one it prints nothing
  and returns the sum of the last loop.
\<close>

theorem travel_time_passes:
  "ssmap_path_travel_time m ids =
     (case validation_error m ids of
        Some e \<Rightarrow> Inr ([e], Fin (- 1))
      | None \<Rightarrow> (case sum_time m ids (Fin 0) of Inl f \<Rightarrow> Inl f | Inr t \<Rightarrow> Inr ([], times60 t)))"
  by (rule travel_time_by_passes)

lemmas spec_map_defs = spec_map_def way_main_def way_main_st_def way_oak_def
lemmas parallel_map_defs = parallel_map_def way_fast_def way_slow_def
lemmas validation_defs = validation_error_def get_node_def num_nodes_def ways_between_def
  common_ways_def adjacent_in_def step_def

lemma wf_spec_map: "wf_map spec_map"
  by (simp add: wf_map_def spec_map_defs get_way_def get_node_def num_ways_def num_nodes_def enumerate_eq_zip upt_rec)

lemma wf_parallel_map: "wf_map parallel_map"
  by (simp add: wf_map_def parallel_map_defs get_way_def get_node_def num_ways_def num_nodes_def)

theorem travel_time_passes_witness:
  "ssmap_path_travel_time spec_map [7, 0, 0] = Inr ([NodeNotExist 7], Fin (- 1)) \<and>
   ssmap_path_travel_time spec_map [0, 3, 0] = Inr ([NodeRepeated 0], Fin (- 1)) \<and>
   ssmap_path_travel_time spec_map [2, 0, 3] = Inr ([NoRoads 0 3], Fin (- 1)) \<and>
   ssmap_path_travel_time spec_map [3, 2, 0] = Inr ([NotDirect 2 0], Fin (- 1)) \<and>
   ssmap_path_travel_time spec_map [3, 2, 1, 0] = Inr ([Reverse 3 2], Fin (- 1))"
proof -
  have "validation_error spec_map [7, 0, 0] = Some (NodeNotExist 7)"
    and "validation_error spec_map [0, 3, 0] = Some (NodeRepeated 0)"
    and "validation_error spec_map [2, 0, 3] = Some (NoRoads 0 3)"
    and "validation_error spec_map [3, 2, 0] = Some (NotDirect 2 0)"
    and "validation_error spec_map [3, 2, 1, 0] = Some (Reverse 3 2)"
    by (simp_all add: validation_defs spec_map_defs)
  then show ?thesis
    using travel_time_passes [of spec_map]
    by simp
qed

lemma pick_l_hit:
  "adjacent_in ids c n \<or> (\<not> one_way w \<and> adjacent_in ids n c) \<Longrightarrow> pick_l w ids c n x = wid w"
  by (induction w ids c n x rule: pick_l.induct) (auto simp: adjacent_in_def)

lemma pick_l_miss:
  "\<not> (adjacent_in ids c n \<or> (\<not> one_way w \<and> adjacent_in ids n c)) \<Longrightarrow> pick_l w ids c n x = x"
  by (induction w ids c n x rule: pick_l.induct) (auto simp: adjacent_in_def)

lemma pick_l_eq:
  "pick_l w ids c n x =
     (if adjacent_in ids c n \<or> (\<not> one_way w \<and> adjacent_in ids n c) then wid w else x)"
  using pick_l_hit[of ids c n w x] pick_l_miss[of ids c n w x] by (simp split: if_splits)

lemma pick_k_eq:
  "pick_k w1 ws2 c n x = (if wid w1 \<in> wid ` set ws2 \<and> step c n w1 then wid w1 else x)"
  by (induction ws2 arbitrary: x) (auto simp: pick_l_eq step_def)

lemma pick_j_eq:
  "pick_j ws1 ws2 c n x =
     (case filter (\<lambda>w. wid w \<in> wid ` set ws2 \<and> step c n w) ws1 of
        [] \<Rightarrow> x
      | w # ws \<Rightarrow> wid (last (w # ws)))"
proof (induction ws1 arbitrary: x)
  case Nil
  then show ?case by simp
next
  case (Cons w1 rest)
  show ?case
    by (auto simp: Cons.IH pick_k_eq split: list.splits)
qed

lemma filter_common:
  "filter (\<lambda>w. wid w \<in> wid ` set (nways n2) \<and> step c n w) (nways n1) =
   filter (step c n) (common_ways n1 n2)"
  by (simp add: common_ways_def conj_commute)

lemma pick_j_last:
  assumes "\<exists>w \<in> set (common_ways n1 n2). step c n w"
  shows "pick_j (nways n1) (nways n2) c n x = wid (last (filter (step c n) (common_ways n1 n2)))"
proof -
  from assms have "filter (step c n) (common_ways n1 n2) \<noteq> []"
    by (auto simp: filter_empty_conv)
  then show ?thesis
    by (simp add: pick_j_eq filter_common split: list.splits)
qed

lemma wf_node_way:
  assumes "wf_map m" "get_node m u = Some nd" "w \<in> set (nways nd)"
  shows "get_way m (wid w) = Inr w"
  using wf_map_node(1)[OF assms(1) _ _ assms(3)] get_node_SomeD[OF assms(2)] by blast

lemma last_way_in:
  assumes "get_node m u = Some n1" "get_node m v = Some n2"
    and "\<exists>w \<in> set (common_ways n1 n2). step u v w"
  shows "last_way m u v \<in> set (nways n1)"
proof -
  let ?l = "filter (step u v) (common_ways n1 n2)"
  from assms(3) have ne: "?l \<noteq> []" by (auto simp: filter_empty_conv)
  then have "last ?l \<in> set ?l" by (rule last_in_set)
  then have "last ?l \<in> set (nways n1)" by (auto simp: common_ways_def)
  then show ?thesis using assms(1,2) by (simp add: last_way_def ways_between_def)
qed

lemma sum_time_eq:
  assumes wf: "wf_map m"
  shows "\<forall>i \<in> set ids. get_node m i \<noteq> None \<Longrightarrow>
     \<forall>(u, v) \<in> set (zip ids (tl ids)). \<exists>w \<in> set (ways_between m u v). step u v w \<Longrightarrow>
     sum_time m ids t =
       Inr (foldl (\<lambda>t (u, v). add_quotient t (node_distance m u v) (max_speed (last_way m u v)))
              t (zip ids (tl ids)))"
proof (induction ids arbitrary: t rule: induct_list012)
  case (3 c n rest)
  from 3(3) obtain n1 n2 where n: "get_node m c = Some n1" "get_node m n = Some n2"
    by auto
  from 3(4) n have st: "\<exists>w \<in> set (common_ways n1 n2). step c n w"
    by (auto simp: ways_between_def)
  have lw: "last_way m c n = last (filter (step c n) (common_ways n1 n2))"
    using n by (simp add: last_way_def ways_between_def)
  have gw: "get_way m (pick_j (nways n1) (nways n2) c n 0) = Inr (last_way m c n)"
    using wf_node_way[OF wf n(1) last_way_in[OF n st]] pick_j_last[OF st, of 0] lw by simp
  have "sum_time m (c # n # rest) t =
      sum_time m (n # rest) (add_quotient t (node_distance m c n) (max_speed (last_way m c n)))"
    using n gw by (simp add: node_distance_def)
  also have "\<dots> = Inr (foldl (\<lambda>t (u, v). add_quotient t (node_distance m u v) (max_speed (last_way m u v)))
              (add_quotient t (node_distance m c n) (max_speed (last_way m c n))) (zip (n # rest) (tl (n # rest))))"
    using 3(3,4) by (intro 3(2)) auto
  finally show ?case by simp
qed simp_all

lemma travel_time_validated:
  assumes "wf_map m" and "validation_error m ids = None"
  shows "ssmap_path_travel_time m ids = Inr ([], travel_minutes last_way m ids)"
proof -
  from assms(2) have ex: "\<forall>i \<in> set ids. get_node m i \<noteq> None"
    by (auto simp: validation_error_def split: option.splits dest: find_None_all)
  from assms(2) have "find (\<lambda>(u, v). \<not> (\<exists>w \<in> set (ways_between m u v). step u v w)) (zip ids (tl ids)) = None"
    by (auto simp: validation_error_def split: option.splits)
  then have st: "\<forall>(u, v) \<in> set (zip ids (tl ids)). \<exists>w \<in> set (ways_between m u v). step u v w"
    by (fastforce simp: find_None_iff)
  show ?thesis
    using assms(2) by (simp add: travel_time_by_passes sum_time_eq[OF assms(1) ex st] travel_minutes_def)
qed

text \<open>
  Claim C3, as amended. For a sequence that passes the five checks on a map with
  the data model's invariants, the time is the sum over the adjacent pairs of
  distance / speed, times 60, where the speed is that of the last segment \<open>s\<close>
  with \<open>step u v s\<close> in the order of the first point's segment list (each hit of
  the scan overwrites \<open>way_id\<close>).
\<close>

theorem travel_time_uses_last_way:
  assumes "wf_map m" and "validation_error m ids = None"
  shows "ssmap_path_travel_time m ids = Inr ([], travel_minutes last_way m ids)"
  using assms by (rule travel_time_validated)

lemma ways_between_parallel: "ways_between parallel_map 0 1 = [way_fast, way_slow]"
  by (simp add: ways_between_def get_node_def num_nodes_def parallel_map_def common_ways_def
      way_fast_def way_slow_def)

lemma step_parallel: "step 0 1 way_fast" "step 0 1 way_slow"
  by (simp_all add: step_def adjacent_in_def way_fast_def way_slow_def)

lemma validation_parallel: "validation_error parallel_map [0, 1] = None"
proof -
  have "get_node parallel_map 0 \<noteq> None" "get_node parallel_map 1 \<noteq> None"
    by (simp_all add: get_node_def num_nodes_def parallel_map_def)
  moreover have "adjacent_in (node_ids way_fast) 0 1"
    by (simp add: adjacent_in_def way_fast_def)
  ultimately show ?thesis
    using step_parallel by (simp add: validation_error_def ways_between_parallel)
qed

theorem travel_time_uses_last_way_witness:
  "wf_map parallel_map \<and> validation_error parallel_map [0, 1] = None \<and>
   ssmap_path_travel_time parallel_map [0, 1] = Inr ([], travel_minutes last_way parallel_map [0, 1]) \<and>
   last_way parallel_map 0 1 = way_slow"
proof -
  note v = validation_parallel
  have l: "last_way parallel_map 0 1 = way_slow"
    by (simp add: last_way_def ways_between_parallel step_parallel)
  show ?thesis
    using travel_time_uses_last_way [OF wf_parallel_map v] wf_parallel_map v l by simp
qed

text \<open>
  Claim C3 as stated fails on the map with two parallel segments: the sequence
  0, 1 passes the checks, the first segment with \<open>step 0 1\<close> in the list of point 0
  has speed 60, and the time returned is the one for speed 30.
\<close>

theorem travel_time_not_first_way:
  "validation_error parallel_map [0, 1] = None \<and>
   first_way parallel_map 0 1 = way_fast \<and>
   travel_minutes first_way parallel_map [0, 1] = Fin (6371 * pi / 180) \<and>
   ssmap_path_travel_time parallel_map [0, 1] = Inr ([], Fin (6371 * pi / 90)) \<and>
   ssmap_path_travel_time parallel_map [0, 1] \<noteq> Inr ([], travel_minutes first_way parallel_map [0, 1])"
proof -
  note v = validation_parallel
  have f: "first_way parallel_map 0 1 = way_fast"
    by (simp add: first_way_def ways_between_parallel step_parallel)
  have d: "node_distance parallel_map 0 1 = 6371 * pi / 180"
    by (simp add: node_distance_def get_node_def num_nodes_def parallel_map_def distance_equator)
  have t1: "travel_minutes first_way parallel_map [0, 1] = Fin (6371 * pi / 180)"
    by (simp add: travel_minutes_def f d add_quotient_def times60_def way_fast_def)
  have t2: "ssmap_path_travel_time parallel_map [0, 1] = Inr ([], Fin (6371 * pi / 90))"
    by (simp add: ssmap_path_travel_time_def parallel_map_defs get_node_def get_way_def
        num_nodes_def num_ways_def add_quotient_def times60_def distance_equator)
  show ?thesis
    using v f t1 t2 by simp
qed

section \<open>Properties of the search by name\<close>

lemma strstr_sublist: "(strstr hay needle \<noteq> None) = sublist needle hay"
  by (induction hay) (auto simp: sublist_Cons_right)

lemma strstr_None_iff: "(strstr hay needle = None) = (\<not> sublist needle hay)"
  using strstr_sublist[of hay needle] by blast

lemma strstr_Some_iff: "(\<exists>y. strstr hay needle = Some y) = sublist needle hay"
  using strstr_sublist[of hay needle] by auto

lemma name_scan_eq:
  "None \<notin> set ws \<Longrightarrow>
   name_scan ws (int j) name1 (Some name2) w1 w2 =
     Inr (w1 @ named_ways name1 j ws, w2 @ named_ways name2 j ws)"
proof (induction ws arbitrary: j w1 w2)
  case Nil
  then show ?case by (simp add: named_ways_def)
next
  case (Cons x ws)
  then obtain w where x: "x = Some w" by (cases x) auto
  from Cons.prems have ns: "None \<notin> set ws" by simp
  have s: "int j + 1 = int (Suc j)" by simp
  have n: "\<And>n. named_ways n j (Some w # ws) =
      (if sublist n (name w) then int j # named_ways n (Suc j) ws else named_ways n (Suc j) ws)"
    by (simp add: named_ways_def)
  show ?case
    unfolding x name_scan.simps s Cons.IH[OF ns] n
    by (simp add: strstr_None_iff strstr_Some_iff)
qed

lemma in_named_ways:
  "(i \<in> set (named_ways n 0 ws)) =
     (\<exists>k w. i = int k \<and> k < length ws \<and> ws ! k = Some w \<and> sublist n (name w))"
  by (auto simp: named_ways_def in_set_enumerate_eq split: option.splits)

lemma two_names_m_eq:
  "two_names_m wl w1k with2 f = (f \<or> (wl \<in> set with2 \<and> w1k \<noteq> wl))"
  by (induction with2 arbitrary: f) auto

lemma two_names_l_eq:
  "two_names_l ids w1k with2 f = (f \<or> (\<exists>wl \<in> set ids. wl \<in> set with2 \<and> w1k \<noteq> wl))"
  by (induction ids arbitrary: f) (auto simp: two_names_m_eq Let_def)

lemma two_names_k_eq:
  "two_names_k wj ids with1 with2 (f1, f2) =
     (f1 \<or> wj \<in> set with1,
      f2 \<or> (wj \<in> set with1 \<and> (\<exists>wl \<in> set ids. wl \<in> set with2 \<and> wj \<noteq> wl)))"
  by (induction with1 arbitrary: f1 f2) (auto simp: two_names_l_eq)

lemma two_names_j_eq:
  "two_names_j js ids with1 with2 (False, False) =
     (let b = (\<exists>wj \<in> set js. wj \<in> set with1 \<and> (\<exists>wl \<in> set ids. wl \<in> set with2 \<and> wj \<noteq> wl))
      in (b, b))"
  by (induction js) (auto simp: two_names_k_eq Let_def)

lemma node_scan_eq:
  "None \<notin> set nds \<Longrightarrow>
   node_scan nds (int j) True with1 with2 out =
     Inr (out @ map (\<lambda>(k, x). int k)
        (filter (\<lambda>(k, x). case x of None \<Rightarrow> False | Some nd \<Rightarrow>
            (\<exists>a \<in> set (nways nd). wid a \<in> set with1 \<and>
               (\<exists>b \<in> set (nways nd). wid b \<in> set with2 \<and> wid a \<noteq> wid b)))
          (enumerate j nds)))"
proof (induction nds arbitrary: j out)
  case Nil
  then show ?case by simp
next
  case (Cons x nds)
  then obtain nd where x: "x = Some nd" by (cases x) auto
  from Cons.prems have ns: "None \<notin> set nds" by simp
  have s: "int j + 1 = int (Suc j)" by simp
  show ?case
    unfolding x node_scan.simps s Let_def two_names_j_eq Cons.IH[OF ns]
    by auto
qed

text \<open>
  Claim C7. On a map with the data model's invariants and dense identifiers, the
  search with two names prints exactly the identifiers, in increasing order, of
  the points that have in their segment list a segment whose name contains the
  first text and a different segment whose name contains the second.
\<close>

theorem find_node_by_two_names:
  assumes "wf_map m" and "dense_map m"
  shows "ssmap_find_node_by_names m name1 (Some name2) = Inr (two_name_points m name1 name2)"
proof -
  from assms(2) have d: "None \<notin> set (nodes m)" "None \<notin> set (ways m)"
    by (simp_all add: dense_map_def)
  have q: "(\<exists>a \<in> set (nways nd). wid a \<in> set (named_ways name1 0 (ways m)) \<and>
               (\<exists>b \<in> set (nways nd). wid b \<in> set (named_ways name2 0 (ways m)) \<and> wid a \<noteq> wid b))
           = two_name_point name1 name2 nd"
    if "(k, Some nd) \<in> set (enumerate 0 (nodes m))" for k nd
  proof -
    from that have k: "k < length (nodes m)" "nodes m ! k = Some nd"
      by (auto simp: in_set_enumerate_eq)
    have gw: "get_way m (wid w) = Inr w" if "w \<in> set (nways nd)" for w
      using wf_map_node(1)[OF assms(1) k that] .
    have nm: "(wid w \<in> set (named_ways n 0 (ways m))) = sublist n (name w)"
      if "w \<in> set (nways nd)" for w n
    proof -
      from gw[OF that] have g: "0 \<le> wid w" "nat (wid w) < length (ways m)"
          "ways m ! nat (wid w) = Some w"
        by (auto simp: get_way_def num_ways_def split: if_splits option.splits)
      show ?thesis
      proof
        assume "wid w \<in> set (named_ways n 0 (ways m))"
        then obtain k w' where "wid w = int k" "ways m ! k = Some w'" "sublist n (name w')"
          by (auto simp: in_named_ways)
        with g(3) show "sublist n (name w)" by simp
      next
        assume "sublist n (name w)"
        with g have "wid w = int (nat (wid w)) \<and> nat (wid w) < length (ways m) \<and>
            ways m ! nat (wid w) = Some w \<and> sublist n (name w)" by simp
        then show "wid w \<in> set (named_ways n 0 (ways m))"
          unfolding in_named_ways by blast
      qed
    qed
    have ne: "(wid a \<noteq> wid b) = (a \<noteq> b)" if "a \<in> set (nways nd)" "b \<in> set (nways nd)" for a b
    proof -
      have "a = b" if e: "wid a = wid b"
      proof -
        have "(Inr a :: fault + way) = Inr b"
          using gw[OF \<open>a \<in> set (nways nd)\<close>] gw[OF \<open>b \<in> set (nways nd)\<close>] e by metis
        then show ?thesis by (rule Inr_inject)
      qed
      then show ?thesis by blast
    qed
    show ?thesis
      unfolding two_name_point_def using nm ne by blast
  qed
  have "filter (\<lambda>(k, x). case x of None \<Rightarrow> False | Some nd \<Rightarrow>
            (\<exists>a \<in> set (nways nd). wid a \<in> set (named_ways name1 0 (ways m)) \<and>
               (\<exists>b \<in> set (nways nd). wid b \<in> set (named_ways name2 0 (ways m)) \<and> wid a \<noteq> wid b)))
          (enumerate 0 (nodes m)) =
        filter (\<lambda>(k, x). case x of None \<Rightarrow> False | Some nd \<Rightarrow> two_name_point name1 name2 nd)
          (enumerate 0 (nodes m))"
    by (rule filter_cong) (auto split: option.splits simp: q)
  then show ?thesis
    using name_scan_eq[OF d(2), of 0 name1 name2 "[]" "[]"] node_scan_eq[OF d(1), of 0]
    by (simp add: ssmap_find_node_by_names_def two_name_points_def)
qed


theorem find_node_by_two_names_witness:
  "wf_map spec_map \<and> dense_map spec_map \<and>
   ssmap_find_node_by_names spec_map ''Main'' (Some ''Oak'') = Inr (two_name_points spec_map ''Main'' ''Oak'') \<and>
   two_name_points spec_map ''Main'' ''Oak'' = [1] \<and>
   ssmap_find_node_by_names spec_map ''Main'' (Some ''St'') = Inr (two_name_points spec_map ''Main'' ''St'') \<and>
   two_name_points spec_map ''Main'' ''St'' = [2]"
proof -
  have d: "dense_map spec_map"
    by (simp add: dense_map_def spec_map_def)
  have p1: "two_name_points spec_map ''Main'' ''Oak'' = [1]"
    by (simp add: two_name_points_def two_name_point_def spec_map_defs sublist_code)
  have p2: "two_name_points spec_map ''Main'' ''St'' = [2]"
    by (simp add: two_name_points_def two_name_point_def spec_map_defs sublist_code)
  show ?thesis
    using find_node_by_two_names [OF wf_spec_map d] wf_spec_map d p1 p2 by simp
qed

section \<open>The router looks at the first occurrence only\<close>

lemma find_node_index_from_eq:
  "i \<le> length ids \<Longrightarrow>
   find_node_index_from ids u i =
     (if u \<in> set (drop i ids) then int (i + length (takeWhile (\<lambda>x. x \<noteq> u) (drop i ids))) else - 1)"
proof (induction ids u i rule: find_node_index_from.induct)
  case (1 ids v i)
  show ?case
  proof (cases "i < length ids")
    case False
    then show ?thesis using 1(2) by (subst find_node_index_from.simps) simp
  next
    case True
    then have d: "drop i ids = ids ! i # drop (Suc i) ids"
      by (simp add: Cons_nth_drop_Suc)
    show ?thesis
    proof (cases "ids ! i = v")
      case True
      then show ?thesis using \<open>i < length ids\<close> d by (subst find_node_index_from.simps) simp
    next
      case False
      have "find_node_index_from ids v i = find_node_index_from ids v (i + 1)"
        using False True by (subst find_node_index_from.simps) simp
      then show ?thesis
        using 1(1)[OF True False] True False d by simp
    qed
  qed
qed

lemma find_node_index_in_way_eq:
  "find_node_index_in_way w u =
     (if u \<in> set (node_ids w) then int (length (takeWhile (\<lambda>x. x \<noteq> u) (node_ids w))) else - 1)"
  using find_node_index_from_eq[of 0 "node_ids w" u] by (simp add: find_node_index_in_way_def)

lemma first_index_props:
  assumes "u \<in> set ids"
  shows "length (takeWhile (\<lambda>x. x \<noteq> u) ids) < length ids"
    and "ids ! length (takeWhile (\<lambda>x. x \<noteq> u) ids) = u"
proof -
  let ?t = "takeWhile (\<lambda>x. x \<noteq> u) ids"
  have "?t \<noteq> ids"
    using assms by (auto simp: takeWhile_eq_all_conv)
  moreover have "?t = take (length ?t) ids"
    by (rule takeWhile_eq_take)
  ultimately have "length ?t \<noteq> length ids"
    by (metis take_all order_refl)
  then show l: "length ?t < length ids"
    using length_takeWhile_le[of "\<lambda>x. x \<noteq> u" ids] by linarith
  show "ids ! length ?t = u"
    using nth_length_takeWhile[OF l] by simp
qed

lemma explore_offset_minus:
  assumes "i < length (node_ids w)"
  shows "explore_offset m u nu w (int i) (- 1) st =
     (if \<not> one_way w \<and> 0 < i then relax m u nu w (node_ids w ! (i - 1)) st else Inr st)"
proof (cases "0 < i")
  case True
  then have "nat (int i + - 1) = i - 1" "int i + - 1 \<ge> 0" "int i + - 1 < int (length (node_ids w))"
    using assms by auto
  then show ?thesis
    using True by (simp add: explore_offset_def Let_def)
next
  case False
  then show ?thesis by (simp add: explore_offset_def Let_def)
qed

lemma explore_offset_plus:
  "explore_offset m u nu w (int i) 1 st =
     (if Suc i < length (node_ids w) then relax m u nu w (node_ids w ! Suc i) st else Inr st)"
proof -
  have "nat (int i + 1) = Suc i" by simp
  then show ?thesis
    by (auto simp: explore_offset_def Let_def)
qed

lemma explore_way_first:
  assumes "u \<in> set (node_ids w)"
  shows "explore_way m u nu w st = relax_all m u nu w (first_neighbours w u) st"
proof -
  let ?i = "length (takeWhile (\<lambda>x. x \<noteq> u) (node_ids w))"
  have i: "?i < length (node_ids w)" using first_index_props(1)[OF assms] .
  have idx: "find_node_index_in_way w u = int ?i"
    using assms by (simp add: find_node_index_in_way_eq)
  show ?thesis
    unfolding explore_way_def idx Let_def explore_offset_minus[OF i] explore_offset_plus
      first_neighbours_def
    by (cases "one_way w"; cases "0 < ?i"; cases "Suc ?i < length (node_ids w)")
       (simp_all split: sum.splits)
qed

section \<open>The invariant of the main loop\<close>

lemma first_neighbours_subset: "set (first_neighbours w u) \<subseteq> set (node_ids w)"
proof -
  let ?ids = "node_ids w"
  let ?i = "length (takeWhile (\<lambda>x. x \<noteq> u) ?ids)"
  have "?ids ! (?i - 1) \<in> set ?ids" if "0 < ?i"
    using that length_takeWhile_le[of "\<lambda>x. x \<noteq> u" ?ids] by (intro nth_mem) linarith
  moreover have "?ids ! Suc ?i \<in> set ?ids" if "Suc ?i < length ?ids"
    using that by (intro nth_mem)
  ultimately show ?thesis
    by (auto simp: first_neighbours_def Let_def)
qed

lemma heap_step:
  fixes v :: int and d :: real
  assumes "heap_ok h" "distinct (heap_ids h)"
  defines "h' \<equiv> (if \<not> is_in_min_heap h v then insert_min_heap h v d else decrease_key h v d)"
  shows "heap_ok h'" and "distinct (heap_ids h')" and "set (heap_ids h') \<subseteq> insert v (set (heap_ids h))"
proof -
  consider (full) "\<not> is_in_min_heap h v" "hsize h = capacity h"
    | (ins) "\<not> is_in_min_heap h v" "hsize h \<noteq> capacity h"
    | (dec) "is_in_min_heap h v" by blast
  then have "heap_ok h' \<and> distinct (heap_ids h') \<and> set (heap_ids h') \<subseteq> insert v (set (heap_ids h))"
  proof cases
    case full
    then have "h' = h" by (simp add: h'_def insert_min_heap_def)
    then show ?thesis using assms(1,2) by auto
  next
    case ins
    then have h': "h' = insert_min_heap h v d" by (simp add: h'_def)
    note p = insert_min_heap_props[OF assms(1) ins(2), of v d]
    have m: "mset (heap_ids h') = mset (v # heap_ids h)"
      using p(1) by (simp add: h' heap_ids_mset)
    have nin: "v \<notin> set (heap_ids h)"
      using ins(1) is_in_min_heap_iff[OF assms(1)] by simp
    have "distinct (heap_ids h') = distinct (v # heap_ids h)"
      using m by (rule mset_eq_imp_distinct_iff)
    moreover have "set (heap_ids h') = set (v # heap_ids h)"
      using m by (rule mset_eq_setD)
    ultimately show ?thesis
      using p(3) assms(2) nin by (auto simp: h')
  next
    case dec
    then have h': "h' = decrease_key h v d" by (simp add: h'_def)
    note p = decrease_key_props[OF assms(1), of v d]
    have "distinct (heap_ids h') = distinct (heap_ids h)"
      using p(1) unfolding h' by (rule mset_eq_imp_distinct_iff)
    moreover have "set (heap_ids h') = set (heap_ids h)"
      using p(1) unfolding h' by (rule mset_eq_setD)
    ultimately show ?thesis
      using p(3) assms(2) by (auto simp: h')
  qed
  then show "heap_ok h'" and "distinct (heap_ids h')" and "set (heap_ids h') \<subseteq> insert v (set (heap_ids h))"
    by auto
qed

lemma link_frame:
  assumes "link m s st rank px x" "x \<noteq> v" "\<not> visited st ! nat v" "0 \<le> v" "0 \<le> x"
    and "visited st' = visited st" "dist st' = (dist st)[nat v := a]"
  shows "link m s st' rank px x"
proof -
  from assms(1) have px: "0 \<le> px" "visited st ! nat px"
    by (auto simp: link_def)
  with assms(3) have "px \<noteq> v" by auto
  then have n1: "nat v \<noteq> nat px" using px(1) assms(4) by simp
  have n2: "nat v \<noteq> nat x" using assms(2,4,5) by simp
  show ?thesis
    using assms(1) n1 n2 unfolding link_def assms(6,7) by simp
qed

lemma relax_preserves:
  assumes wf: "wf_map m" and inv: "tree_inv m s st rank" and vs: "visited st ! nat s"
    and u: "0 \<le> u" "u < num_nodes m" "visited st ! nat u" "nodes m ! nat u = Some nu"
    and w: "w \<in> set (nways nu)" "u \<in> set (node_ids w)"
    and v: "v \<in> set (first_neighbours w u)"
  shows "\<exists>st'. relax m u nu w v st = Inr st' \<and> tree_inv m s st' rank \<and> visited st' = visited st"
proof -
  have un: "nat u < length (nodes m)" using u by (simp add: num_nodes_def)
  have gw: "get_way m (wid w) = Inr w"
    using wf_map_node(1)[OF wf un u(4) w(1)] .
  note gwd = get_way_InrD[OF gw]
  have vw: "v \<in> set (node_ids w)" using v first_neighbours_subset by blast
  have gwi: "nat (wid w) < length (ways m)" "ways m ! nat (wid w) = Some w"
    using gwd by simp_all
  note ww = wf_map_way[OF wf gwi vw]
  from ww(1) obtain nv where nv: "get_node m v = Some nv" by blast
  note sp = ww(2)
  note nvd = get_node_SomeD[OF nv]
  have vr: "0 \<le> v" "v < num_nodes m" "nodes m ! nat v = Some nv"
    using nvd by (auto simp: num_nodes_def)
  show ?thesis
  proof (cases "\<not> visited st ! nat v \<and> dist st ! nat u \<noteq> NonFinite")
    case False
    then have "relax m u nu w v st = Inr st"
      using vr by (auto simp: relax_def)
    then show ?thesis using inv by simp
  next
    case True
    then obtain du where du: "dist st ! nat u = Fin du" by (cases "dist st ! nat u") auto
    define alt where "alt = du + distance_between_nodes nu nv * 60 / max_speed w"
    define h' where "h' = (if \<not> is_in_min_heap (heap st) v
                           then insert_min_heap (heap st) v alt
                           else decrease_key (heap st) v alt)"
    define st' where "st' = st\<lparr>dist := (dist st)[nat v := Fin alt],
                                parent := (parent st)[nat v := u], heap := h'\<rparr>"
    have rr: "relax m u nu w v st =
        (if (case dist st ! nat v of NonFinite \<Rightarrow> True | Fin dv \<Rightarrow> alt < dv) then Inr st' else Inr st)"
      using vr True du sp by (simp add: relax_def alt_def Let_def st'_def h'_def split: dbl.splits)
    show ?thesis
    proof (cases "case dist st ! nat v of NonFinite \<Rightarrow> True | Fin dv \<Rightarrow> alt < dv")
      case False
      then have "relax m u nu w v st = Inr st"
        using rr by simp
      then show ?thesis using inv by simp
    next
      case upd: True
      have r: "relax m u nu w v st = Inr st'"
        using rr upd by simp
      have nvis: "\<not> visited st ! nat v" using True by simp
      have vu: "v \<noteq> u" using nvis u(3) by auto
      have vsn: "v \<noteq> s" using nvis vs by auto
      have len: "length (dist st) = length (nodes m)" "length (visited st) = length (nodes m)"
          "length (parent st) = length (nodes m)"
        using inv by (simp_all add: tree_inv_def)
      have vn: "nat v < length (nodes m)" using vr by (simp add: num_nodes_def)
      have hok: "heap_ok (heap st)" "distinct (heap_ids (heap st))"
        using inv by (simp_all add: tree_inv_def)
      note hs = heap_step[OF hok, of v alt, folded h'_def]
      have par: "parent st' ! nat x = (if x = v then u else parent st ! nat x)" if "0 \<le> x" for x
        using that vr(1) vn len by (auto simp: st'_def nth_list_update)
      have vis: "visited st' = visited st" by (simp add: st'_def)
      have dst: "dist st' = (dist st)[nat v := Fin alt]" by (simp add: st'_def)
      have hp: "heap st' = h'" by (simp add: st'_def)
      have lnk_old: "link m s st' rank (parent st ! nat x) x"
        if "0 \<le> x" "x < num_nodes m" "parent st ! nat x \<noteq> - 1" "x \<noteq> v" for x
      proof -
        have "link m s st rank (parent st ! nat x) x"
          using inv that unfolding tree_inv_def by blast
        then show ?thesis
          by (rule link_frame[OF _ that(4) nvis vr(1) that(1) vis dst])
      qed
      have lnk_new: "link m s st' rank u v"
      proof -
        have "dist st' ! nat u = Fin du"
          using du vu u(1) vr(1) by (simp add: dst)
        moreover have "dist st' ! nat v = Fin (du + distance_between_nodes nu nv / max_speed w * 60)"
          using vn len by (simp add: dst alt_def)
        ultimately show ?thesis
          unfolding link_def vis using u vsn nvis vr w v by blast
      qed
      have c6: "\<forall>x \<in> set (heap_ids (heap st')). 0 \<le> x \<and> x < num_nodes m \<and> \<not> visited st' ! nat x \<and>
          (x = s \<or> parent st' ! nat x \<noteq> - 1) \<and> nodes m ! nat x \<noteq> None"
      proof
        fix x assume "x \<in> set (heap_ids (heap st'))"
        then have "x = v \<or> x \<in> set (heap_ids (heap st))"
          using hs(3) hp by auto
        then show "0 \<le> x \<and> x < num_nodes m \<and> \<not> visited st' ! nat x \<and>
          (x = s \<or> parent st' ! nat x \<noteq> - 1) \<and> nodes m ! nat x \<noteq> None"
        proof
          assume "x = v"
          then show ?thesis using vr nvis u(1) par[of v] vis by simp
        next
          assume xin: "x \<in> set (heap_ids (heap st))"
          then have old: "0 \<le> x \<and> x < num_nodes m \<and> \<not> visited st ! nat x \<and>
             (x = s \<or> parent st ! nat x \<noteq> - 1) \<and> nodes m ! nat x \<noteq> None"
            using inv unfolding tree_inv_def by blast
          then show ?thesis using par[of x] u(1) vis by auto
        qed
      qed
      have c7: "\<forall>x. 0 \<le> x \<and> x < num_nodes m \<and> parent st' ! nat x \<noteq> - 1 \<longrightarrow>
          link m s st' rank (parent st' ! nat x) x"
      proof (intro allI impI)
        fix x assume x: "0 \<le> x \<and> x < num_nodes m \<and> parent st' ! nat x \<noteq> - 1"
        show "link m s st' rank (parent st' ! nat x) x"
        proof (cases "x = v")
          case True
          then show ?thesis using lnk_new par[of v] vr(1) by simp
        next
          case False
          then show ?thesis using lnk_old[of x] x par[of x] by simp
        qed
      qed
      have c8: "\<forall>x. 0 \<le> x \<and> x < num_nodes m \<and> visited st' ! nat x \<longrightarrow> x = s \<or> parent st' ! nat x \<noteq> - 1"
      proof (intro allI impI)
        fix x assume x: "0 \<le> x \<and> x < num_nodes m \<and> visited st' ! nat x"
        then have "x \<noteq> v" using nvis vis by auto
        moreover have "x = s \<or> parent st ! nat x \<noteq> - 1"
          using inv x vis unfolding tree_inv_def by auto
        ultimately show "x = s \<or> parent st' ! nat x \<noteq> - 1"
          using par[of x] x by simp
      qed
      have sold: "0 \<le> s" "s < num_nodes m" "nodes m ! nat s \<noteq> None" "parent st ! nat s = - 1"
          "dist st ! nat s = Fin 0"
        using inv by (simp_all add: tree_inv_def)
      have c9: "parent st' ! nat s = - 1" "dist st' ! nat s = Fin 0" "visited st' ! nat s"
        using sold vsn par[of s] vs vr(1) by (simp_all add: dst vis)
      have "tree_inv m s st' rank"
        unfolding tree_inv_def
        using len hs(1,2) c6 c7 c8 sold(1,2,3) c9
        by (simp add: st'_def)
      then show ?thesis using r vis by simp
    qed
  qed
qed

lemma relax_all_preserves:
  assumes wf: "wf_map m"
    and u: "0 \<le> u" "u < num_nodes m" "nodes m ! nat u = Some nu"
    and w: "w \<in> set (nways nu)" "u \<in> set (node_ids w)"
  shows "tree_inv m s st rank \<Longrightarrow> visited st ! nat s \<Longrightarrow> visited st ! nat u \<Longrightarrow>
    set vs \<subseteq> set (first_neighbours w u) \<Longrightarrow>
    \<exists>st'. relax_all m u nu w vs st = Inr st' \<and> tree_inv m s st' rank \<and> visited st' = visited st"
proof (induction vs arbitrary: st)
  case Nil
  then show ?case by simp
next
  case (Cons v vs)
  from Cons.prems(4) have v: "v \<in> set (first_neighbours w u)" and vs: "set vs \<subseteq> set (first_neighbours w u)"
    by auto
  from relax_preserves[OF wf Cons.prems(1,2) u(1,2) Cons.prems(3) u(3) w v]
  obtain st1 where st1: "relax m u nu w v st = Inr st1" "tree_inv m s st1 rank" "visited st1 = visited st"
    by blast
  from Cons.IH[OF st1(2) _ _ vs] Cons.prems(2,3) st1(3)
  obtain st' where "relax_all m u nu w vs st1 = Inr st'" "tree_inv m s st' rank" "visited st' = visited st1"
    by auto
  then show ?case using st1 by simp
qed

lemma explore_ways_preserves:
  assumes wf: "wf_map m"
    and u: "0 \<le> u" "u < num_nodes m" "nodes m ! nat u = Some nu"
  shows "tree_inv m s st rank \<Longrightarrow> visited st ! nat s \<Longrightarrow> visited st ! nat u \<Longrightarrow>
    set ws \<subseteq> set (nways nu) \<Longrightarrow>
    \<exists>st'. explore_ways m u nu ws st = Inr st' \<and> tree_inv m s st' rank \<and> visited st' = visited st"
proof (induction ws arbitrary: st)
  case Nil
  then show ?case by simp
next
  case (Cons w ws)
  from Cons.prems(4) have w: "w \<in> set (nways nu)" and ws: "set ws \<subseteq> set (nways nu)"
    by auto
  have un: "nat u < length (nodes m)" using u by (simp add: num_nodes_def)
  have "int (nat u) \<in> set (node_ids w)"
    using wf_map_node(2)[OF wf un u(3) w] .
  then have uw: "u \<in> set (node_ids w)" using u(1) by simp
  from relax_all_preserves[OF wf u w uw Cons.prems(1,2,3) subset_refl]
  obtain st1 where st1: "explore_way m u nu w st = Inr st1" "tree_inv m s st1 rank" "visited st1 = visited st"
    unfolding explore_way_first[OF uw] by blast
  from Cons.IH[OF st1(2) _ _ ws] Cons.prems(2,3) st1(3)
  obtain st' where "explore_ways m u nu ws st1 = Inr st'" "tree_inv m s st' rank" "visited st' = visited st1"
    by auto
  then show ?case using st1 by simp
qed

lemma filter_Not_update:
  "i < length xs \<Longrightarrow> \<not> xs ! i \<Longrightarrow>
   length (filter Not (xs[i := True])) < length (filter Not xs)"
proof (induction xs arbitrary: i)
  case Nil
  then show ?case by simp
next
  case (Cons x xs)
  show ?case
  proof (cases i)
    case 0
    then show ?thesis using Cons.prems by simp
  next
    case (Suc j)
    then show ?thesis using Cons.prems Cons.IH[of j] by simp
  qed
qed

lemma link_visit:
  assumes l: "link m s st rank px x" and x: "0 \<le> x"
    and u: "0 \<le> u" "\<not> visited st ! nat u" "nat u < length (visited st)"
    and st1: "visited st1 = (visited st)[nat u := True]" "dist st1 = dist st"
    and r: "\<forall>y. 0 \<le> y \<and> y < num_nodes m \<longrightarrow> rank y < k"
  shows "link m s st1 (rank(u := k)) px x"
proof -
  from l have px: "0 \<le> px" "px < num_nodes m" "visited st ! nat px" and xs: "x \<noteq> s"
    and rk: "visited st ! nat x \<longrightarrow> rank px < rank x"
    by (auto simp: link_def)
  have pxu: "px \<noteq> u" using px(3) u(2) by auto
  have v1: "visited st1 ! nat px"
    using px(3) u(3) by (simp add: st1(1) nth_list_update)
  have r1: "(rank(u := k)) px < (rank(u := k)) x" if "visited st1 ! nat x"
  proof (cases "x = u")
    case True
    then show ?thesis using pxu r px(1,2) by simp
  next
    case False
    then have "nat x \<noteq> nat u" using x u(1) by simp
    then have "visited st ! nat x" using that by (simp add: st1(1))
    then show ?thesis using rk pxu False by simp
  qed
  show ?thesis
    using l v1 r1 px(1,2) xs unfolding link_def st1(2) by blast
qed

lemma dijkstra_settle:
  assumes wf: "wf_map m" and inv: "tree_inv m s st rank" and ne: "0 < hsize (heap st)"
  defines "rt \<equiv> fst (extract_min (heap st))"
  defines "st1 \<equiv> st\<lparr>heap := snd (extract_min (heap st)),
                      visited := (visited st)[nat (node_id rt) := True]\<rparr>"
  shows "\<exists>rank' nu. tree_inv m s st1 rank' \<and>
     0 \<le> node_id rt \<and> node_id rt < num_nodes m \<and> nodes m ! nat (node_id rt) = Some nu \<and>
     visited st1 ! nat s \<and> visited st1 ! nat (node_id rt) \<and> \<not> visited st ! nat (node_id rt) \<and>
     rt = elements (heap st) ! 0 \<and> rt \<in> set (live (heap st)) \<and>
     set (heap_ids (heap st)) = insert (node_id rt) (set (heap_ids (heap st1))) \<and>
     set (live (heap st1)) \<subseteq> set (live (heap st)) \<and>
     length (filter Not (visited st1)) < length (filter Not (visited st)) \<and>
     dijkstra_round m e st =
       (if node_id rt = e then Inr (True, st1)
        else case explore_ways m (node_id rt) nu (nways nu) st1 of
               Inl f \<Rightarrow> Inl f | Inr st2 \<Rightarrow> Inr (False, st2))"
proof -
  define h where "h = heap st"
  define h' where "h' = snd (extract_min h)"
  define u where "u = node_id rt"
  have rt: "rt = fst (extract_min h)" by (simp add: rt_def h_def)
  have hok: "heap_ok h" "distinct (heap_ids h)"
    using inv by (simp_all add: tree_inv_def h_def)
  note ex = extract_min_props[OF ne[folded h_def] hok(1), folded rt h'_def]
  have ms: "mset (heap_ids h) = mset (u # heap_ids h')"
    using ex(1) by (simp add: heap_ids_mset u_def)
  have d': "distinct (u # heap_ids h')"
    using mset_eq_imp_distinct_iff[OF ms] hok(2) by simp
  have s': "set (heap_ids h) = insert u (set (heap_ids h'))"
    using mset_eq_setD[OF ms] by simp
  have lv: "set (live h) = insert rt (set (live h'))"
    using mset_eq_setD[of "live h" "rt # live h'"] ex(1) by simp
  have uin: "u \<in> set (heap_ids h)" using s' by simp
  have len: "length (dist st) = length (nodes m)" "length (visited st) = length (nodes m)"
      "length (parent st) = length (nodes m)"
    using inv by (simp_all add: tree_inv_def)
  have hD: "0 \<le> x \<and> x < num_nodes m \<and> \<not> visited st ! nat x \<and>
       (x = s \<or> parent st ! nat x \<noteq> - 1) \<and> nodes m ! nat x \<noteq> None"
    if "x \<in> set (heap_ids h)" for x
    using inv that unfolding tree_inv_def h_def by blast
  have uD: "0 \<le> u" "u < num_nodes m" "\<not> visited st ! nat u"
      "u = s \<or> parent st ! nat u \<noteq> - 1" "nodes m ! nat u \<noteq> None"
    using hD[OF uin] by auto
  then obtain nu where nu: "nodes m ! nat u = Some nu" by auto
  have un: "nat u < length (visited st)"
    using uD len by (auto simp: num_nodes_def)
  have st1: "st1 = st\<lparr>heap := h', visited := (visited st)[nat u := True]\<rparr>"
    by (simp add: st1_def h'_def h_def u_def)
  define k where "k = Suc (Max (rank ` {y. 0 \<le> y \<and> y < num_nodes m}))"
  define rank' where "rank' = rank(u := k)"
  have fin: "finite {y::int. 0 \<le> y \<and> y < num_nodes m}" by simp
  have rk: "\<forall>y. 0 \<le> y \<and> y < num_nodes m \<longrightarrow> rank y < k"
  proof (intro allI impI)
    fix y :: int assume "0 \<le> y \<and> y < num_nodes m"
    then have "rank y \<in> rank ` {y. 0 \<le> y \<and> y < num_nodes m}" by blast
    then have "rank y \<le> Max (rank ` {y. 0 \<le> y \<and> y < num_nodes m})"
      using fin by (intro Max_ge) auto
    then show "rank y < k" by (simp add: k_def)
  qed
  have vis1: "visited st1 = (visited st)[nat u := True]" and dst1: "dist st1 = dist st"
    and par1: "parent st1 = parent st" and hp1: "heap st1 = h'"
    by (simp_all add: st1)
  have vmono: "visited st1 ! nat x" if "visited st ! nat x" for x
    using that by (cases "nat x = nat u") (simp_all add: vis1 un)
  have vback: "visited st ! nat x" if "visited st1 ! nat x" "0 \<le> x" "x \<noteq> u" for x
  proof -
    have "nat x \<noteq> nat u" using that(2,3) uD by simp
    then show ?thesis using that(1) by (simp add: vis1)
  qed
  have vu1: "visited st1 ! nat u" by (simp add: vis1 un)
  have sold: "0 \<le> s" "s < num_nodes m" "nodes m ! nat s \<noteq> None" "parent st ! nat s = - 1"
      "dist st ! nat s = Fin 0" "visited st ! nat s \<or> heap_ids h = [s]"
    using inv by (simp_all add: tree_inv_def h_def)
  have vs1: "visited st1 ! nat s"
  proof (cases "visited st ! nat s")
    case True
    then show ?thesis by (rule vmono)
  next
    case False
    then have "heap_ids h = [s]" using sold(6) by simp
    then have "u = s" using uin by simp
    then show ?thesis using vu1 by simp
  qed
  have c6: "\<forall>x \<in> set (heap_ids (heap st1)). 0 \<le> x \<and> x < num_nodes m \<and> \<not> visited st1 ! nat x \<and>
          (x = s \<or> parent st1 ! nat x \<noteq> - 1) \<and> nodes m ! nat x \<noteq> None"
  proof
    fix x assume xin: "x \<in> set (heap_ids (heap st1))"
    then have x: "x \<in> set (heap_ids h)" "x \<noteq> u"
      using s' d' hp1 by auto
    have "\<not> visited st1 ! nat x"
      using vback[of x] hD[OF x(1)] x(2) by blast
    then show "0 \<le> x \<and> x < num_nodes m \<and> \<not> visited st1 ! nat x \<and>
          (x = s \<or> parent st1 ! nat x \<noteq> - 1) \<and> nodes m ! nat x \<noteq> None"
      using hD[OF x(1)] par1 by simp
  qed
  have c7: "\<forall>x. 0 \<le> x \<and> x < num_nodes m \<and> parent st1 ! nat x \<noteq> - 1 \<longrightarrow>
          link m s st1 rank' (parent st1 ! nat x) x"
  proof (intro allI impI)
    fix x assume x: "0 \<le> x \<and> x < num_nodes m \<and> parent st1 ! nat x \<noteq> - 1"
    then have "link m s st rank (parent st ! nat x) x"
      using inv par1 unfolding tree_inv_def by auto
    then show "link m s st1 rank' (parent st1 ! nat x) x"
      unfolding rank'_def par1
      using x uD un vis1 dst1 rk by (intro link_visit[where st = st]) auto
  qed
  have c8: "\<forall>x. 0 \<le> x \<and> x < num_nodes m \<and> visited st1 ! nat x \<longrightarrow> x = s \<or> parent st1 ! nat x \<noteq> - 1"
  proof (intro allI impI)
    fix x assume x: "0 \<le> x \<and> x < num_nodes m \<and> visited st1 ! nat x"
    show "x = s \<or> parent st1 ! nat x \<noteq> - 1"
    proof (cases "x = u")
      case True
      then show ?thesis using uD par1 by simp
    next
      case False
      then have "visited st ! nat x" using vback x by blast
      then show ?thesis using inv x par1 unfolding tree_inv_def by auto
    qed
  qed
  have inv1: "tree_inv m s st1 rank'"
    unfolding tree_inv_def
    using len ex(3) d' c6 c7 c8 sold(1-5) vs1
    by (simp add: vis1 dst1 par1 hp1)
  have meas: "length (filter Not (visited st1)) < length (filter Not (visited st))"
    unfolding vis1 using un uD by (intro filter_Not_update) auto
  have rd: "dijkstra_round m e st =
      (if u = e then Inr (True, st1)
       else case explore_ways m u nu (nways nu) st1 of Inl f \<Rightarrow> Inl f | Inr st2 \<Rightarrow> Inr (False, st2))"
    using uD nu
    by (simp add: dijkstra_round_def Let_def split_beta h_def[symmetric] rt[symmetric]
        h'_def[symmetric] u_def[symmetric] st1)
  have r0: "rt = elements (heap st) ! 0" using ex(5) by (simp add: h_def)
  have rl: "rt \<in> set (live (heap st))" using lv by (simp add: h_def)
  have hs: "set (heap_ids (heap st)) = insert u (set (heap_ids (heap st1)))"
    using s' by (simp add: h_def hp1)
  have ls: "set (live (heap st1)) \<subseteq> set (live (heap st))"
    using lv by (auto simp: h_def hp1)
  show ?thesis
    using inv1 uD(1,2,3) nu vs1 vu1 r0 rl hs ls meas rd unfolding u_def by blast
qed

lemma dijkstra_round_preserves:
  assumes wf: "wf_map m" and inv: "tree_inv m s st rank" and ne: "0 < hsize (heap st)"
  shows "\<exists>stop st1 rank'. dijkstra_round m e st = Inr (stop, st1) \<and> tree_inv m s st1 rank' \<and>
     length (filter Not (visited st1)) < length (filter Not (visited st))"
proof -
  define rt where "rt = fst (extract_min (heap st))"
  define u where "u = node_id rt"
  define st1 where "st1 = st\<lparr>heap := snd (extract_min (heap st)),
                      visited := (visited st)[nat u := True]\<rparr>"
  from dijkstra_settle[OF wf inv ne, of e, folded rt_def, folded u_def, folded st1_def]
  obtain rank' nu where inv1: "tree_inv m s st1 rank'"
    and uD: "0 \<le> u" "u < num_nodes m" "nodes m ! nat u = Some nu"
    and vs1: "visited st1 ! nat s" and vu1: "visited st1 ! nat u"
    and meas: "length (filter Not (visited st1)) < length (filter Not (visited st))"
    and rd: "dijkstra_round m e st =
       (if u = e then Inr (True, st1)
        else case explore_ways m u nu (nways nu) st1 of
               Inl f \<Rightarrow> Inl f | Inr st2 \<Rightarrow> Inr (False, st2))"
    by blast
  show ?thesis
  proof (cases "u = e")
    case True
    then show ?thesis using rd inv1 meas by auto
  next
    case False
    from explore_ways_preserves[OF wf uD inv1 vs1 vu1 subset_refl]
    obtain st2 where "explore_ways m u nu (nways nu) st1 = Inr st2" "tree_inv m s st2 rank'"
        "visited st2 = visited st1"
      by blast
    then show ?thesis using rd False meas by auto
  qed
qed

lemma dijkstra_init_inv:
  assumes "0 \<le> s" "s < num_nodes m" "nodes m ! nat s \<noteq> None"
  shows "tree_inv m s (dijkstra_init m s) rank"
proof -
  define n where "n = length (nodes m)"
  have sn: "nat s < n" using assms by (auto simp: num_nodes_def n_def)
  define h0 where "h0 = create_min_heap n"
  have h0: "heap_ok h0" "hsize h0 \<noteq> capacity h0" "live h0 = []"
    using sn by (simp_all add: h0_def create_min_heap_def heap_ok_def live_def)
  note p = insert_min_heap_props[OF h0(1,2), of s 0]
  have "mset (heap_ids (insert_min_heap h0 s 0)) = {#s#}"
    using p(1) h0(3) by (simp add: heap_ids_mset)
  then have ids: "heap_ids (insert_min_heap h0 s 0) = [s]"
    by (metis mset.simps(1) mset.simps(2) mset_eq_length length_0_conv length_Suc_conv
        list.set_intros(1) mset_eq_setD set_ConsD empty_set insert_iff singletonD set_mset_mset
        set_mset_single)
  have st: "dijkstra_init m s =
      \<lparr>dist = (replicate n NonFinite)[nat s := Fin 0], visited = replicate n False,
       parent = replicate n (- 1), heap = insert_min_heap h0 s 0\<rparr>"
    by (simp add: dijkstra_init_def Let_def n_def h0_def)
  have b: "nat v < n" if "0 \<le> v" "v < num_nodes m" for v
    using that by (auto simp: num_nodes_def n_def)
  show ?thesis
    unfolding tree_inv_def st
    using assms sn p(3) ids b
    by (auto simp: n_def[symmetric])
qed

lemma dijkstra_loop_terminates:
  assumes wf: "wf_map m"
  shows "tree_inv m s st rank \<Longrightarrow>
    \<exists>st' rank'. dijkstra_loop m e st = Some (Inr st') \<and> tree_inv m s st' rank'"
proof (induction "length (filter Not (visited st))" arbitrary: st rank rule: less_induct)
  case less
  show ?case
  proof (cases "0 < hsize (heap st)")
    case False
    then have "dijkstra_loop m e st = Some (Inr st)"
      by (subst dijkstra_loop.simps) simp
    then show ?thesis using less.prems by blast
  next
    case True
    from dijkstra_round_preserves[OF wf less.prems True, of e]
    obtain stop st1 rank1 where r: "dijkstra_round m e st = Inr (stop, st1)"
        "tree_inv m s st1 rank1"
        "length (filter Not (visited st1)) < length (filter Not (visited st))"
      by blast
    show ?thesis
    proof (cases stop)
      case True
      then have "dijkstra_loop m e st = Some (Inr st1)"
        using r(1) \<open>0 < hsize (heap st)\<close> by (subst dijkstra_loop.simps) simp
      then show ?thesis using r(2) by blast
    next
      case False
      then have "dijkstra_loop m e st = dijkstra_loop m e st1"
        using r(1) \<open>0 < hsize (heap st)\<close> by (subst dijkstra_loop.simps) simp
      then show ?thesis using less.hyps[OF r(3) r(2)] by simp
    qed
  qed
qed

section \<open>The path printed\<close>

lemma zip_snoc_tl:
  "P \<noteq> [] \<Longrightarrow> zip (P @ [v]) (tl (P @ [v])) = zip P (tl P) @ [(last P, v)]"
proof (induction P rule: induct_list012)
  case 1
  then show ?case by simp
next
  case (2 x)
  then show ?case by simp
next
  case (3 x y zs)
  then show ?case by simp
qed

lemma tree_path_snoc:
  assumes "tree_path m par s P" "x \<notin> set P" "0 \<le> x" "x < num_nodes m" "par ! nat x = last P"
    "last P \<noteq> - 1"
  shows "tree_path m par s (P @ [x])"
proof -
  from assms(1) have ne: "P \<noteq> []" by (simp add: tree_path_def)
  show ?thesis
    using assms unfolding tree_path_def zip_snoc_tl[OF ne]
    by (auto simp: hd_append)
qed

lemma stack_room:
  assumes "distinct l" "\<forall>y \<in> set l. 0 \<le> y \<and> y < int n" "0 \<le> x" "x < int n" "x \<notin> set l"
  shows "length l < n"
proof -
  have "insert x (set l) \<subseteq> {0..<int n}" using assms by auto
  then have "card (insert x (set l)) \<le> card {0..<int n}"
    by (intro card_mono) auto
  moreover have "card (insert x (set l)) = Suc (length l)"
    using assms(1,5) by (simp add: distinct_card)
  ultimately show ?thesis by simp
qed

lemma walk_parents_chain:
  assumes inv: "tree_inv m s st rank"
  shows "0 \<le> x \<Longrightarrow> x < num_nodes m \<Longrightarrow> visited st ! nat x \<Longrightarrow> distinct stack \<Longrightarrow>
     \<forall>y \<in> set stack. 0 \<le> y \<and> y < num_nodes m \<and> (visited st ! nat y \<longrightarrow> rank x < rank y) \<Longrightarrow>
     \<exists>P. walk_parents (parent st) (length (nodes m)) x stack = Inr (stack @ rev P) \<and>
         tree_path m (parent st) s P \<and> last P = x \<and>
         (\<forall>y \<in> set P. visited st ! nat y \<and> rank y \<le> rank x)"
proof (induction "rank x" arbitrary: x stack rule: less_induct)
  case less
  let ?n = "length (nodes m)"
  have xs: "x \<notin> set stack"
    using less.prems(3,5) by auto
  have room: "length stack < ?n"
    using less.prems(1,2,4,5) xs by (intro stack_room[where x = x]) (auto simp: num_nodes_def)
  have unf: "walk_parents (parent st) ?n x stack =
      walk_parents (parent st) ?n (parent st ! nat x) (stack @ [x])"
    using less.prems(1,2) room by (subst walk_parents.simps) (auto simp: num_nodes_def)
  have sold: "0 \<le> s" "parent st ! nat s = - 1"
    using inv by (simp_all add: tree_inv_def)
  show ?case
  proof (cases "x = s")
    case True
    have "walk_parents (parent st) ?n (- 1) (stack @ [x]) = Inr (stack @ [x])"
      by (subst walk_parents.simps) simp
    then have "walk_parents (parent st) ?n x stack = Inr (stack @ rev [x])"
      using unf True sold by simp
    moreover have "tree_path m (parent st) s [x]"
      using True by (simp add: tree_path_def)
    ultimately show ?thesis using less.prems(3) by (intro exI[of _ "[x]"]) simp
  next
    case False
    define u where "u = parent st ! nat x"
    have pu: "u \<noteq> - 1"
      using inv less.prems(1,2,3) False unfolding tree_inv_def u_def by blast
    then have lk: "link m s st rank u x"
      using inv less.prems(1,2) unfolding tree_inv_def u_def by blast
    then have u: "0 \<le> u" "u < num_nodes m" "visited st ! nat u" "rank u < rank x"
      using less.prems(3) by (auto simp: link_def)
    have d: "distinct (stack @ [x])" using less.prems(4) xs by simp
    have c: "\<forall>y \<in> set (stack @ [x]). 0 \<le> y \<and> y < num_nodes m \<and> (visited st ! nat y \<longrightarrow> rank u < rank y)"
      using less.prems(1,2,5) u(4) by (auto intro: less_trans)
    from less.hyps[OF u(4) u(1,2,3) d c]
    obtain P where P: "walk_parents (parent st) ?n u (stack @ [x]) = Inr ((stack @ [x]) @ rev P)"
        "tree_path m (parent st) s P" "last P = u"
        "\<forall>y \<in> set P. visited st ! nat y \<and> rank y \<le> rank u"
      by blast
    have xP: "x \<notin> set P" using P(4) u(4) by auto
    have tp: "tree_path m (parent st) s (P @ [x])"
      using P(2) xP less.prems(1,2) P(3) pu by (intro tree_path_snoc) (simp_all add: u_def)
    have "walk_parents (parent st) ?n x stack = Inr (stack @ rev (P @ [x]))"
      using unf P(1) by (simp add: u_def)
    moreover have "\<forall>y \<in> set (P @ [x]). visited st ! nat y \<and> rank y \<le> rank x"
      using P(4) u(4) less.prems(3) by auto
    ultimately show ?thesis using tp by (intro exI[of _ "P @ [x]"]) simp
  qed
qed

lemma reconstruct_path:
  assumes inv: "tree_inv m s st rank" and e: "0 \<le> e" "e < num_nodes m"
    and pe: "parent st ! nat e \<noteq> - 1"
  shows "\<exists>P. reconstruct m e st = Inr [PathLine P] \<and> tree_path m (parent st) s P \<and> last P = e"
proof -
  let ?n = "length (nodes m)"
  define u where "u = parent st ! nat e"
  have lk: "link m s st rank u e"
    using inv e pe unfolding tree_inv_def u_def by blast
  then have u: "0 \<le> u" "u < num_nodes m" "visited st ! nat u" "visited st ! nat e \<longrightarrow> rank u < rank e"
    by (auto simp: link_def)
  have unf: "walk_parents (parent st) ?n e [] = walk_parents (parent st) ?n u [e]"
    using e by (subst walk_parents.simps) (auto simp: num_nodes_def u_def)
  from walk_parents_chain[OF inv u(1,2,3), of "[e]"] e u(4)
  obtain P where P: "walk_parents (parent st) ?n u [e] = Inr ([e] @ rev P)"
      "tree_path m (parent st) s P" "last P = u"
      "\<forall>y \<in> set P. visited st ! nat y \<and> rank y \<le> rank u"
    by auto
  have eP: "e \<notin> set P" using P(4) u(4) by auto
  have tp: "tree_path m (parent st) s (P @ [e])"
    using P(2) eP e P(3) pe by (intro tree_path_snoc) (simp_all add: u_def)
  have "reconstruct m e st = Inr [PathLine (P @ [e])]"
    using pe unf P(1) by (simp add: reconstruct_def)
  then show ?thesis using tp by (intro exI[of _ "P @ [e]"]) simp
qed

lemma adjacent_in_nth: "Suc i < length ids \<Longrightarrow> adjacent_in ids (ids ! i) (ids ! Suc i)"
proof -
  assume a: "Suc i < length ids"
  then have "i < length (zip ids (tl ids))" by simp
  moreover have "zip ids (tl ids) ! i = (ids ! i, ids ! Suc i)"
    using a by (simp add: nth_tl)
  ultimately show ?thesis
    unfolding adjacent_in_def by (metis nth_mem)
qed

lemma first_neighbour_step:
  assumes "u \<in> set (node_ids w)" "v \<in> set (first_neighbours w u)"
  shows "step u v w"
proof -
  let ?ids = "node_ids w"
  let ?i = "length (takeWhile (\<lambda>x. x \<noteq> u) ?ids)"
  note fi = first_index_props[OF assms(1)]
  from assms(2) consider (before) "\<not> one_way w" "0 < ?i" "v = ?ids ! (?i - 1)"
    | (after) "Suc ?i < length ?ids" "v = ?ids ! Suc ?i"
    by (auto simp: first_neighbours_def Let_def split: if_splits)
  then show ?thesis
  proof cases
    case before
    then have "Suc (?i - 1) < length ?ids" "?ids ! Suc (?i - 1) = u"
      using fi by simp_all
    then have "adjacent_in ?ids v u"
      using adjacent_in_nth[of "?i - 1" ?ids] before(3) by simp
    then show ?thesis using before(1) by (simp add: step_def)
  next
    case after
    then have "adjacent_in ?ids u v"
      using adjacent_in_nth[of ?i ?ids] fi(2) by simp
    then show ?thesis by (simp add: step_def)
  qed
qed

lemma link_facts:
  assumes wf: "wf_map m" and lk: "link m s st rank u v" and v: "0 \<le> v" "v < num_nodes m"
  shows "\<exists>nu nv w du. get_node m u = Some nu \<and> get_node m v = Some nv \<and>
      w \<in> set (ways_between m u v) \<and> step u v w \<and> Some w \<in> set (ways m) \<and> 0 < max_speed w \<and>
      dist st ! nat u = Fin du \<and>
      dist st ! nat v = Fin (du + distance_between_nodes nu nv / max_speed w * 60)"
proof -
  from lk obtain nu nv w du where f: "0 \<le> u" "u < num_nodes m"
      "nodes m ! nat u = Some nu" "nodes m ! nat v = Some nv"
      "w \<in> set (nways nu)" "u \<in> set (node_ids w)" "v \<in> set (first_neighbours w u)"
      "dist st ! nat u = Fin du"
      "dist st ! nat v = Fin (du + distance_between_nodes nu nv / max_speed w * 60)"
    unfolding link_def by blast
  have gu: "get_node m u = Some nu" using f(1,2,3) by (simp add: get_node_def)
  have gv: "get_node m v = Some nv" using v f(4) by (simp add: get_node_def)
  have un: "nat u < length (nodes m)" using f(1,2) by (simp add: num_nodes_def)
  have gw: "get_way m (wid w) = Inr w"
    using wf_map_node(1)[OF wf un f(3) f(5)] .
  note gwd = get_way_InrD[OF gw]
  have gwi: "nat (wid w) < length (ways m)" "ways m ! nat (wid w) = Some w"
    using gwd by simp_all
  have inw: "Some w \<in> set (ways m)" using gwi by (metis nth_mem)
  have vw: "v \<in> set (node_ids w)" using f(7) first_neighbours_subset by blast
  note ww = wf_map_way[OF wf gwi vw]
  from ww(1) gv have "w \<in> set (nways nv)" by auto
  then have "w \<in> set (common_ways nu nv)"
    using f(5) by (auto simp: common_ways_def)
  then have wb: "w \<in> set (ways_between m u v)"
    using gu gv by (simp add: ways_between_def)
  have st: "step u v w" using first_neighbour_step[OF f(6,7)] .
  show ?thesis
    using gu gv wb st inw ww(2) f(8,9) by blast
qed

lemma tree_path_link:
  assumes "tree_inv m s st rank" "tree_path m (parent st) s P" "(u, v) \<in> set (zip P (tl P))"
  shows "link m s st rank u v \<and> 0 \<le> v \<and> v < num_nodes m"
proof -
  from assms(2,3) have "0 \<le> v \<and> v < num_nodes m \<and> parent st ! nat v = u \<and> u \<noteq> - 1"
    unfolding tree_path_def by blast
  then show ?thesis
    using assms(1) unfolding tree_inv_def by blast
qed

lemma tree_path_prefix:
  assumes "tree_path m par s (P @ [v])" "P \<noteq> []"
  shows "tree_path m par s P"
  using assms unfolding tree_path_def zip_snoc_tl[OF assms(2)] by (auto simp: hd_append)

lemma path_connected:
  assumes wf: "wf_map m" and inv: "tree_inv m s st rank"
  shows "tree_path m (parent st) s P \<Longrightarrow> (s, last P) \<in> (step_rel m)\<^sup>*"
proof (induction P rule: rev_induct)
  case Nil
  then show ?case by (simp add: tree_path_def)
next
  case (snoc v P)
  show ?case
  proof (cases "P = []")
    case True
    then show ?thesis using snoc.prems by (simp add: tree_path_def)
  next
    case False
    have tp: "tree_path m (parent st) s P" using tree_path_prefix[OF snoc.prems False] .
    have "(last P, v) \<in> set (zip (P @ [v]) (tl (P @ [v])))"
      by (simp add: zip_snoc_tl[OF False])
    from tree_path_link[OF inv snoc.prems this] link_facts[OF wf]
    have "(last P, v) \<in> step_rel m"
      unfolding step_rel_def by blast
    then show ?thesis using snoc.IH[OF tp] by simp
  qed
qed

lemma snd_zip_tl: "snd ` set (zip P (tl P)) = set (tl P)"
proof -
  have "map snd (zip P (tl P)) = tl P"
    by (simp add: map_snd_zip_take)
  then show ?thesis by (metis set_map)
qed

lemma count_list_distinct: "distinct xs \<Longrightarrow> x \<in> set xs \<Longrightarrow> count_list xs x = 1"
  by (induction xs) (auto simp: count_list_0_iff)

lemma tree_path_validates:
  assumes wf: "wf_map m" and inv: "tree_inv m s st rank" and tp: "tree_path m (parent st) s P"
  shows "validation_error m P = None"
proof -
  have pr: "\<exists>w \<in> set (ways_between m u v). step u v w"
    and ex2: "get_node m v \<noteq> None"
    if "(u, v) \<in> set (zip P (tl P))" for u v
    using link_facts[OF wf] tree_path_link[OF inv tp that] by blast+
  have s: "get_node m s \<noteq> None"
    using inv by (simp add: tree_inv_def get_node_def)
  have ex: "get_node m x \<noteq> None" if "x \<in> set P" for x
  proof -
    from tp have "P \<noteq> []" "hd P = s" by (simp_all add: tree_path_def)
    then have "x = s \<or> x \<in> set (tl P)"
      using that by (cases P) auto
    then show ?thesis
    proof
      assume "x = s" then show ?thesis using s by simp
    next
      assume "x \<in> set (tl P)"
      then obtain u where "(u, x) \<in> set (zip P (tl P))"
        unfolding snd_zip_tl[symmetric] by force
      then show ?thesis by (rule ex2)
    qed
  qed
  have d: "distinct P" using tp by (simp add: tree_path_def)
  have f1: "find (\<lambda>i. get_node m i = None) P = None"
    using ex by (auto simp: find_None_iff)
  have f2: "find (\<lambda>i. count_list P i > 1) P = None"
    using count_list_distinct[OF d] by (auto simp: find_None_iff)
  have f3: "find (\<lambda>(u, v). ways_between m u v = []) (zip P (tl P)) = None"
    using pr by (fastforce simp: find_None_iff)
  have f4: "find (\<lambda>(u, v). \<not> (\<exists>w \<in> set (ways_between m u v).
                    adjacent_in (node_ids w) u v \<or> adjacent_in (node_ids w) v u))
             (zip P (tl P)) = None"
    using pr unfolding find_None_iff step_def by fastforce
  have f5: "find (\<lambda>(u, v). \<not> (\<exists>w \<in> set (ways_between m u v). step u v w)) (zip P (tl P)) = None"
    using pr unfolding find_None_iff by fastforce
  show ?thesis
    unfolding validation_error_def f1 f2 f3 f4 f5 by simp
qed

lemma same_speed_prefix:
  assumes "same_speed m (P @ [v])" "P \<noteq> []"
  shows "same_speed m P"
  using assms(1) unfolding same_speed_def zip_snoc_tl[OF assms(2)] by auto

lemma tree_path_cost:
  assumes wf: "wf_map m" and inv: "tree_inv m s st rank"
  shows "tree_path m (parent st) s P \<Longrightarrow> same_speed m P \<Longrightarrow>
    \<exists>t. foldl (\<lambda>t (u, v). add_quotient t (node_distance m u v) (max_speed (last_way m u v)))
           (Fin 0) (zip P (tl P)) = Fin t \<and>
        dist st ! nat (last P) = Fin (t * 60)"
proof (induction P rule: rev_induct)
  case Nil
  then show ?case by (simp add: tree_path_def)
next
  case (snoc v P)
  show ?case
  proof (cases "P = []")
    case True
    then have "v = s" using snoc.prems(1) by (simp add: tree_path_def)
    then show ?thesis using True inv by (simp add: tree_inv_def)
  next
    case False
    have tp: "tree_path m (parent st) s P" using tree_path_prefix[OF snoc.prems(1) False] .
    have ss: "same_speed m P" using same_speed_prefix[OF snoc.prems(2) False] .
    from snoc.IH[OF tp ss] obtain t where t:
      "foldl (\<lambda>t (u, v). add_quotient t (node_distance m u v) (max_speed (last_way m u v)))
           (Fin 0) (zip P (tl P)) = Fin t" "dist st ! nat (last P) = Fin (t * 60)"
      by blast
    have mem: "(last P, v) \<in> set (zip (P @ [v]) (tl (P @ [v])))"
      by (simp add: zip_snoc_tl[OF False])
    from tree_path_link[OF inv snoc.prems(1) mem] link_facts[OF wf]
    obtain nu nv w du where f: "get_node m (last P) = Some nu" "get_node m v = Some nv"
        "w \<in> set (ways_between m (last P) v)" "step (last P) v w" "0 < max_speed w"
        "dist st ! nat (last P) = Fin du"
        "dist st ! nat v = Fin (du + distance_between_nodes nu nv / max_speed w * 60)"
      by blast
    have sp: "max_speed w = max_speed (last_way m (last P) v)"
      using snoc.prems(2) mem f(3,4) unfolding same_speed_def by blast
    have nd: "node_distance m (last P) v = distance_between_nodes nu nv"
      using f(1,2) by (simp add: node_distance_def)
    have du: "du = t * 60" using f(6) t(2) by simp
    let ?t = "t + distance_between_nodes nu nv / max_speed w"
    have "foldl (\<lambda>t (u, v). add_quotient t (node_distance m u v) (max_speed (last_way m u v)))
           (Fin 0) (zip (P @ [v]) (tl (P @ [v]))) =
          add_quotient (Fin t) (node_distance m (last P) v) (max_speed (last_way m (last P) v))"
      unfolding zip_snoc_tl[OF False] foldl_append t(1) by simp
    also have "\<dots> = Fin ?t"
      using f(5) by (simp add: nd sp[symmetric] add_quotient_def)
    finally have "foldl (\<lambda>t (u, v). add_quotient t (node_distance m u v) (max_speed (last_way m u v)))
           (Fin 0) (zip (P @ [v]) (tl (P @ [v]))) = Fin ?t" .
    moreover have "dist st ! nat (last (P @ [v])) = Fin (?t * 60)"
      using f(7) du by (simp add: algebra_simps)
    ultimately show ?thesis by blast
  qed
qed

lemma router_run:
  assumes wf: "wf_map m" and s: "get_node m s \<noteq> None" and e: "get_node m e \<noteq> None" and ne: "s \<noteq> e"
  shows "\<exists>st rank. dijkstra_loop m e (dijkstra_init m s) = Some (Inr st) \<and> tree_inv m s st rank \<and>
     ssmap_path_create m s e = Some (reconstruct m e st)"
proof -
  have sv: "0 \<le> s" "s < num_nodes m" "nodes m ! nat s \<noteq> None"
    using s by (auto simp: get_node_def split: if_splits)
  have ev: "0 \<le> e" "e < num_nodes m" "nodes m ! nat e \<noteq> None"
    using e by (auto simp: get_node_def split: if_splits)
  from dijkstra_loop_terminates[OF wf dijkstra_init_inv[OF sv, of "\<lambda>_. 0"], of e]
  obtain st rank where st: "dijkstra_loop m e (dijkstra_init m s) = Some (Inr st)" "tree_inv m s st rank"
    by blast
  have "ssmap_path_create m s e = Some (reconstruct m e st)"
    using sv ev ne st(1) by (auto simp: ssmap_path_create_def)
  then show ?thesis using st by blast
qed

lemma path_create_cases:
  assumes wf: "wf_map m" and s: "get_node m s \<noteq> None" and e: "get_node m e \<noteq> None" and ne: "s \<noteq> e"
  shows "\<exists>st rank. dijkstra_loop m e (dijkstra_init m s) = Some (Inr st) \<and> tree_inv m s st rank \<and>
     (ssmap_path_create m s e = Some (Inr []) \<and> parent st ! nat e = - 1 \<or>
      (\<exists>P. ssmap_path_create m s e = Some (Inr [PathLine P]) \<and> tree_path m (parent st) s P \<and> last P = e))"
proof -
  from router_run[OF assms] obtain st rank where
    st: "dijkstra_loop m e (dijkstra_init m s) = Some (Inr st)" "tree_inv m s st rank"
      "ssmap_path_create m s e = Some (reconstruct m e st)"
    by blast
  have ev: "0 \<le> e" "e < num_nodes m"
    using e by (auto simp: get_node_def split: if_splits)
  show ?thesis
  proof (cases "parent st ! nat e = - 1")
    case True
    then have "reconstruct m e st = Inr []" by (simp add: reconstruct_def)
    then show ?thesis using st True by auto
  next
    case False
    from reconstruct_path[OF st(2) ev False] show ?thesis using st by auto
  qed
qed

lemma path_create_PathLine_valid:
  assumes "ssmap_path_create m s e = Some (Inr [PathLine P])"
  shows "get_node m s \<noteq> None \<and> get_node m e \<noteq> None"
  using assms by (auto simp: ssmap_path_create_def get_node_def split: if_splits)

lemma path_create_steps_aux:
  assumes wf: "wf_map m" and ne: "s \<noteq> e"
    and pc: "ssmap_path_create m s e = Some (Inr [PathLine P])"
  shows "\<exists>st rank. dijkstra_loop m e (dijkstra_init m s) = Some (Inr st) \<and> tree_inv m s st rank \<and>
      tree_path m (parent st) s P \<and> last P = e"
proof -
  note v = path_create_PathLine_valid[OF pc]
  from path_create_cases[OF wf conjunct1[OF v] conjunct2[OF v] ne] pc
  show ?thesis by auto
qed

lemma path_create_degenerate:
  assumes "ssmap_path_create m s s = Some (Inr [PathLine P])"
  shows "P = [s, s]"
  using assms by (auto simp: ssmap_path_create_def split: if_splits)

lemma step_not_against:
  assumes "w \<in> set (ways_between m u v)" "step u v w"
  shows "\<not> against_one_way m u v"
proof -
  let ?cs = "filter (\<lambda>w. adjacent_in (node_ids w) u v \<or> adjacent_in (node_ids w) v u)
               (ways_between m u v)"
  have "w \<in> set ?cs" using assms by (auto simp: step_def)
  moreover have "\<not> (one_way w \<and> \<not> adjacent_in (node_ids w) u v)"
    using assms(2) by (auto simp: step_def)
  ultimately show ?thesis
    unfolding against_one_way_def Let_def by blast
qed

lemma same_point_not_against: "\<not> against_one_way m u u"
proof
  assume a: "against_one_way m u u"
  define cs where "cs = filter (\<lambda>w. adjacent_in (node_ids w) u u \<or> adjacent_in (node_ids w) u u)
               (ways_between m u u)"
  from a have c: "cs \<noteq> []" "\<forall>w \<in> set cs. one_way w \<and> \<not> adjacent_in (node_ids w) u u"
    unfolding against_one_way_def Let_def cs_def by blast+
  from c(1) obtain w where w: "w \<in> set cs" by (cases cs) auto
  then have "adjacent_in (node_ids w) u u" by (simp add: cs_def)
  then show False using c(2) w by blast
qed

text \<open>
  Claim C5. On a map with the data model's invariants, for every start and end: no
  adjacent pair \<open>(u, v)\<close> of the line that \<open>ssmap_path_create\<close> prints is joined only
  by one-way segments that list \<open>v\<close> before \<open>u\<close>, and every adjacent pair of the path
  that the line stands for has a segment \<open>s\<close> of the map with \<open>step u v s\<close>. For a
  start equal to the end the line is the start twice and stands for the path of
  that one point, which has no adjacent pair.
\<close>

theorem path_create_steps:
  assumes "wf_map m" and "ssmap_path_create m s e = Some (Inr [PathLine P])"
  shows "(\<forall>(u, v) \<in> set (zip P (tl P)). \<not> against_one_way m u v) \<and>
     (\<forall>(u, v) \<in> set (zip (denoted_path s e P) (tl (denoted_path s e P))).
        \<exists>w. Some w \<in> set (ways m) \<and> step u v w)"
proof (cases "s = e")
  case True
  then have "P = [s, s]" using assms(2) path_create_degenerate by simp
  then show ?thesis using True same_point_not_against by (simp add: denoted_path_def)
next
  case False
  from path_create_steps_aux[OF assms(1) False assms(2)] obtain st rank where
    st: "tree_inv m s st rank" "tree_path m (parent st) s P"
    by blast
  have "\<not> against_one_way m u v \<and> (\<exists>w. Some w \<in> set (ways m) \<and> step u v w)"
    if "(u, v) \<in> set (zip P (tl P))" for u v
  proof -
    from tree_path_link[OF st that] link_facts[OF assms(1)]
    obtain w where "w \<in> set (ways_between m u v)" "step u v w" "Some w \<in> set (ways m)"
      by blast
    then show ?thesis using step_not_against by blast
  qed
  then show ?thesis using False by (auto simp: denoted_path_def)
qed

text \<open>
  Claim C6. On a map with the data model's invariants, for two existing and
  distinct points with no directed path of steps from the first to the second,
  \<open>ssmap_path_create\<close> ends (its value is not \<open>None\<close>), without a fault, and
  prints nothing: no path line and no error line.
\<close>

theorem path_create_disconnected:
  assumes "wf_map m" and "get_node m s \<noteq> None" and "get_node m e \<noteq> None" and "s \<noteq> e"
    and "(s, e) \<notin> (step_rel m)\<^sup>*"
  shows "ssmap_path_create m s e = Some (Inr [])"
proof -
  from path_create_cases[OF assms(1-4)] obtain st rank where
    st: "tree_inv m s st rank"
      "ssmap_path_create m s e = Some (Inr []) \<or>
       (\<exists>P. tree_path m (parent st) s P \<and> last P = e)"
    by blast
  have "\<not> (\<exists>P. tree_path m (parent st) s P \<and> last P = e)"
    using path_connected[OF assms(1) st(1)] assms(5) by blast
  then show ?thesis using st(2) by blast
qed

lemma foldl_add_quotient_Fin:
  "\<forall>p \<in> set ps. sp p \<noteq> 0 \<Longrightarrow>
   \<exists>t. foldl (\<lambda>t p. add_quotient t (d p) (sp p)) (Fin a) ps = Fin t"
  by (induction ps arbitrary: a) (auto simp: add_quotient_def)

lemma wf_map_speed:
  assumes "wf_map m" "Some w \<in> set (ways m)"
  shows "0 < max_speed w"
  using assms unfolding wf_map_def by fastforce

lemma node_distance_nonneg: "0 \<le> node_distance m u v"
  by (simp add: node_distance_def distance_nonneg split: option.splits)

lemma foldl_time_nonneg:
  "\<forall>(u, v) \<in> set ps. 0 < max_speed (pick m u v) \<Longrightarrow> 0 \<le> a \<Longrightarrow>
   \<exists>t\<ge>0. foldl (\<lambda>t (u, v). add_quotient t (node_distance m u v) (max_speed (pick m u v)))
            (Fin a) ps = Fin t"
proof (induction ps arbitrary: a)
  case Nil
  then show ?case by simp
next
  case (Cons p ps)
  obtain u v where p: "p = (u, v)" by (cases p)
  have sp: "0 < max_speed (pick m u v)" using Cons.prems(1) p by simp
  have "0 \<le> a + node_distance m u v / max_speed (pick m u v)"
    using Cons.prems(2) sp node_distance_nonneg[of m u v] by simp
  from Cons.IH[OF _ this] Cons.prems(1)
  show ?case using sp by (simp add: p add_quotient_def)
qed

lemma last_way_speed:
  assumes wf: "wf_map m" and "\<exists>w \<in> set (ways_between m u v). step u v w"
  shows "0 < max_speed (last_way m u v)"
proof -
  from assms(2) have "ways_between m u v \<noteq> []" by auto
  then obtain n1 n2 where n: "get_node m u = Some n1" "get_node m v = Some n2"
    unfolding ways_between_def by (cases "get_node m u"; cases "get_node m v") auto
  with assms(2) have st: "\<exists>w \<in> set (common_ways n1 n2). step u v w"
    by (simp add: ways_between_def)
  have "last_way m u v \<in> set (nways n1)"
    using last_way_in[OF n st] .
  then have "get_way m (wid (last_way m u v)) = Inr (last_way m u v)"
    using wf_node_way[OF wf n(1)] by blast
  then have "Some (last_way m u v) \<in> set (ways m)"
    using get_way_InrD by (metis nth_mem)
  then show ?thesis using wf_map_speed[OF wf] by blast
qed

lemma validated_time_nonneg:
  assumes wf: "wf_map m" and v: "validation_error m ids = None"
  shows "\<exists>t\<ge>0. travel_minutes last_way m ids = Fin t"
proof -
  from v have "find (\<lambda>(u, v). \<not> (\<exists>w \<in> set (ways_between m u v). step u v w)) (zip ids (tl ids)) = None"
    by (auto simp: validation_error_def split: option.splits)
  then have st: "\<forall>(u, v) \<in> set (zip ids (tl ids)). \<exists>w \<in> set (ways_between m u v). step u v w"
    by (fastforce simp: find_None_iff)
  then have "\<forall>(u, v) \<in> set (zip ids (tl ids)). 0 < max_speed (last_way m u v)"
    using last_way_speed[OF wf] by fastforce
  from foldl_time_nonneg[of "zip ids (tl ids)" last_way m 0, OF this] obtain t where
    "0 \<le> t" "foldl (\<lambda>t (u, v). add_quotient t (node_distance m u v) (max_speed (last_way m u v)))
            (Fin 0) (zip ids (tl ids)) = Fin t"
    by auto
  then show ?thesis
    by (intro exI[of _ "t * 60"]) (simp add: travel_minutes_def times60_def)
qed

text \<open>
  Claim C1, as amended. On a map with the data model's invariants and for a start
  different from the end, a path \<open>P\<close> that \<open>ssmap_path_create\<close> prints passes the five
  checks of \<open>ssmap_path_travel_time\<close>, which prints no error line and returns a
  finite time that is not negative (so not -1.0); the time is equal to the router's
  cost of the end point when, for each adjacent pair of \<open>P\<close>, the segments with
  \<open>step\<close> between the two points all have the speed of the one the travel time uses.
\<close>

theorem router_path_validates:
  assumes "wf_map m" and "s \<noteq> e"
    and "ssmap_path_create m s e = Some (Inr [PathLine P])"
  shows "validation_error m P = None \<and>
     (\<exists>t\<ge>0. ssmap_path_travel_time m P = Inr ([], Fin t)) \<and>
     (same_speed m P \<longrightarrow> ssmap_path_travel_time m P = Inr ([], router_cost m s e))"
proof -
  from path_create_steps_aux[OF assms] obtain st rank where
    st: "dijkstra_loop m e (dijkstra_init m s) = Some (Inr st)" "tree_inv m s st rank"
      "tree_path m (parent st) s P" "last P = e"
    by blast
  have v: "validation_error m P = None"
    using tree_path_validates[OF assms(1) st(2,3)] .
  have tt: "ssmap_path_travel_time m P = Inr ([], travel_minutes last_way m P)"
    using travel_time_validated[OF assms(1) v] .
  have nn: "\<exists>t\<ge>0. ssmap_path_travel_time m P = Inr ([], Fin t)"
    using validated_time_nonneg[OF assms(1) v] tt by auto
  have rc: "router_cost m s e = dist st ! nat e"
    by (simp add: router_cost_def st(1))
  have "ssmap_path_travel_time m P = Inr ([], router_cost m s e)" if "same_speed m P"
  proof -
    from tree_path_cost[OF assms(1) st(2,3) that] obtain t where
      "foldl (\<lambda>t (u, v). add_quotient t (node_distance m u v) (max_speed (last_way m u v)))
           (Fin 0) (zip P (tl P)) = Fin t" "dist st ! nat (last P) = Fin (t * 60)"
      by blast
    then show ?thesis
      using tt rc st(4) by (simp add: travel_minutes_def times60_def)
  qed
  then show ?thesis using v nn by blast
qed

section \<open>The cost of the end point is the least\<close>





















section \<open>The router on the example maps\<close>

lemmas router_eval = ssmap_path_create_def num_nodes_def num_ways_def
  dijkstra_loop.simps dijkstra_round_def dijkstra_init_def create_min_heap_def insert_min_heap_def
  sift_up.simps extract_min_def min_heapify.simps swap_heap_node_def explore_way_def explore_offset_def
  relax_def find_node_index_in_way_def find_node_index_from.simps is_in_min_heap_def is_in_min_heap_from.simps
  decrease_key_def decrease_key_from.simps reconstruct_def walk_parents.simps Let_def distance_equator

lemmas travel_eval = ssmap_path_travel_time_def num_nodes_def num_ways_def get_node_def get_way_def
   add_quotient_def times60_def distance_equator

lemma create_spec_0_3: "ssmap_path_create spec_map 0 3 = Some (Inr [PathLine [0, 1, 2, 3]])"
  by (simp add: router_eval spec_map_defs)

lemma create_spec_3_0: "ssmap_path_create spec_map 3 0 = Some (Inr [])"
  by (simp add: router_eval spec_map_defs)

lemma create_spec_0_0: "ssmap_path_create spec_map 0 0 = Some (Inr [PathLine [0, 0]])"
  by (simp add: ssmap_path_create_def num_nodes_def spec_map_def)

lemma create_parallel: "ssmap_path_create parallel_map 0 1 = Some (Inr [PathLine [0, 1]])"
  by (simp add: router_eval parallel_map_defs)

lemma cost_parallel: "router_cost parallel_map 0 1 = Fin (6371 * pi / 180)"
  by (simp add: router_cost_def router_eval parallel_map_defs)

lemma time_parallel: "ssmap_path_travel_time parallel_map [0, 1] = Inr ([], Fin (6371 * pi / 90))"
  by (simp add: travel_eval parallel_map_defs)

lemma create_ring: "ssmap_path_create ring_map 0 2 = Some (Inr [PathLine [0, 1, 2]])"
  by (simp add: router_eval ring_map_def way_ring_def)

lemma time_ring_012: "ssmap_path_travel_time ring_map [0, 1, 2] = Inr ([], Fin (6371 * pi / 60))"
  by (simp add: travel_eval ring_map_def way_ring_def)

lemma time_ring_02: "ssmap_path_travel_time ring_map [0, 2] = Inr ([], Fin (6371 * pi / 180))"
  by (simp add: travel_eval ring_map_def way_ring_def)

lemma create_revisit: "ssmap_path_create revisit_map 0 3 = Some (Inr [])"
  by (simp add: router_eval revisit_map_def way_revisit_def node_revisit_def)

lemma time_revisit_03: "ssmap_path_travel_time revisit_map [0, 3] = Inr ([], Fin (6371 * pi / 60))"
  by (simp add: travel_eval revisit_map_def way_revisit_def node_revisit_def)

lemma same_speed_spec: "same_speed spec_map [0, 1, 2, 3]"
proof -
  have w: "ways_between spec_map 0 1 = [way_main]" "ways_between spec_map 1 2 = [way_main]"
      "ways_between spec_map 2 3 = [way_main_st]"
    by (simp_all add: ways_between_def get_node_def num_nodes_def spec_map_def common_ways_def
        way_main_def way_main_st_def way_oak_def)
  have s: "step 0 1 way_main" "step 1 2 way_main" "step 2 3 way_main_st"
    by (simp_all add: step_def adjacent_in_def way_main_def way_main_st_def)
  show ?thesis
    by (simp add: same_speed_def w last_way_def s)
qed

theorem router_path_validates_witness:
  "wf_map spec_map \<and> (0::int) \<noteq> 3 \<and>
   ssmap_path_create spec_map 0 3 = Some (Inr [PathLine [0, 1, 2, 3]]) \<and>
   validation_error spec_map [0, 1, 2, 3] = None \<and>
   (\<exists>t\<ge>0. ssmap_path_travel_time spec_map [0, 1, 2, 3] = Inr ([], Fin t)) \<and>
   same_speed spec_map [0, 1, 2, 3] \<and>
   ssmap_path_travel_time spec_map [0, 1, 2, 3] = Inr ([], router_cost spec_map 0 3)"
proof -
  have ne: "(0::int) \<noteq> 3" by simp
  show ?thesis
    using router_path_validates [OF wf_spec_map ne create_spec_0_3]
      wf_spec_map create_spec_0_3 same_speed_spec ne
    by blast
qed

text \<open>
  Claim C1 as stated fails on the map with two parallel segments: the router
  prints 0 1 with the cost of the segment of speed 60, and the travel time of 0 1
  is computed with speed 30, twice the cost.
\<close>

theorem router_cost_differs_from_travel_time:
  "wf_map parallel_map \<and>
   ssmap_path_create parallel_map 0 1 = Some (Inr [PathLine [0, 1]]) \<and>
   router_cost parallel_map 0 1 = Fin (6371 * pi / 180) \<and>
   ssmap_path_travel_time parallel_map [0, 1] = Inr ([], Fin (6371 * pi / 90)) \<and>
   ssmap_path_travel_time parallel_map [0, 1] \<noteq> Inr ([], router_cost parallel_map 0 1)"
  using wf_parallel_map create_parallel cost_parallel time_parallel by simp

theorem path_create_steps_witness:
  "wf_map spec_map \<and>
   ssmap_path_create spec_map 0 3 = Some (Inr [PathLine [0, 1, 2, 3]]) \<and>
   denoted_path 0 3 [0, 1, 2, 3] = [0, 1, 2, 3] \<and>
   (2, 3) \<in> set (zip [0, 1, 2, 3] (tl [0, 1, 2, 3 :: int])) \<and>
   \<not> against_one_way spec_map 2 3 \<and>
   (\<exists>w. Some w \<in> set (ways spec_map) \<and> step 2 3 w) \<and>
   ssmap_path_create spec_map 0 0 = Some (Inr [PathLine [0, 0]]) \<and>
   denoted_path 0 0 [0, 0] = [0] \<and>
   \<not> against_one_way spec_map 0 0"
proof -
  have d: "denoted_path 0 3 [0, 1, 2, 3] = [0, 1, 2, 3]" "denoted_path 0 0 [0, 0] = [0]"
    by (simp_all add: denoted_path_def)
  have mem: "(2, 3) \<in> set (zip [0, 1, 2, 3] (tl [0, 1, 2, 3 :: int]))" by simp
  note a = path_create_steps [OF wf_spec_map create_spec_0_3]
  note b = path_create_steps [OF wf_spec_map create_spec_0_0]
  have "\<not> against_one_way spec_map 2 3" "\<exists>w. Some w \<in> set (ways spec_map) \<and> step 2 3 w"
    using a unfolding d by simp_all
  moreover have "\<not> against_one_way spec_map 0 0"
    using b by simp
  ultimately show ?thesis
    using wf_spec_map create_spec_0_3 create_spec_0_0 d mem by simp
qed

lemma no_step_from_3: "(3, z) \<notin> step_rel spec_map"
proof -
  have "\<not> step 3 z way_main" "\<not> step 3 z way_main_st" "\<not> step 3 z way_oak"
    by (simp_all add: step_def adjacent_in_def way_main_def way_main_st_def way_oak_def)
  then show ?thesis
    by (auto simp: step_rel_def spec_map_def)
qed

lemma not_connected_3_0: "(3, 0) \<notin> (step_rel spec_map)\<^sup>*"
proof
  assume "(3, 0) \<in> (step_rel spec_map)\<^sup>*"
  then show False
    by (cases rule: converse_rtranclE) (simp_all add: no_step_from_3)
qed

theorem path_create_disconnected_witness:
  "wf_map spec_map \<and> get_node spec_map 3 \<noteq> None \<and> get_node spec_map 0 \<noteq> None \<and> (3::int) \<noteq> 0 \<and>
   (3, 0) \<notin> (step_rel spec_map)\<^sup>* \<and> ssmap_path_create spec_map 3 0 = Some (Inr [])"
proof -
  have g: "get_node spec_map 3 \<noteq> None" "get_node spec_map 0 \<noteq> None"
    by (simp_all add: get_node_def num_nodes_def spec_map_def)
  have ne: "(3::int) \<noteq> 0" by simp
  show ?thesis
    using path_create_disconnected [OF wf_spec_map g ne not_connected_3_0] wf_spec_map g
      not_connected_3_0
    by simp
qed

text \<open>
  Claim C10. When \<open>u\<close> occurs in the sequence of way \<open>w\<close>, the index that
  \<open>find_node_index_in_way\<close> returns is the first position of \<open>u\<close>, and exploring
  \<open>w\<close> from \<open>u\<close> does exactly the updates for the neighbours of that first
  position: \<open>first_neighbours\<close> never looks at a later occurrence of \<open>u\<close>, so the
  entries next to a later occurrence give no edge.
\<close>

theorem router_first_occurrence:
  "u \<in> set (node_ids w) \<Longrightarrow>
   find_node_index_in_way w u = int (length (takeWhile (\<lambda>x. x \<noteq> u) (node_ids w))) \<and>
   explore_way m u node_u w st = relax_all m u node_u w (first_neighbours w u) st"
  using explore_way_first[of u w m node_u st] by (simp add: find_node_index_in_way_eq)

theorem router_first_occurrence_witness:
  "(0::int) \<in> set (node_ids way_revisit) \<and>
   find_node_index_in_way way_revisit 0 = 0 \<and>
   first_neighbours way_revisit 0 = [1] \<and>
   explore_way revisit_map 0 node_revisit way_revisit (dijkstra_init revisit_map 0) =
     relax_all revisit_map 0 node_revisit way_revisit [1] (dijkstra_init revisit_map 0) \<and>
   step 0 3 way_revisit \<and>
   validation_error revisit_map [0, 3] = None \<and>
   ssmap_path_create revisit_map 0 3 = Some (Inr [])"
proof -
  have i: "(0::int) \<in> set (node_ids way_revisit)"
    by (simp add: way_revisit_def)
  have f: "first_neighbours way_revisit 0 = [1]"
    by (simp add: first_neighbours_def way_revisit_def)
  have s: "step 0 3 way_revisit"
    by (simp add: step_def adjacent_in_def way_revisit_def)
  have wb: "ways_between revisit_map 0 3 = [way_revisit]"
    by (simp add: ways_between_def get_node_def num_nodes_def revisit_map_def common_ways_def
        node_revisit_def)
  have g: "get_node revisit_map 0 \<noteq> None" "get_node revisit_map 3 \<noteq> None"
    by (simp_all add: get_node_def num_nodes_def revisit_map_def)
  have a: "adjacent_in (node_ids way_revisit) 0 3"
    by (simp add: adjacent_in_def way_revisit_def)
  have v: "validation_error revisit_map [0, 3] = None"
    using a g by (simp add: validation_error_def wb step_def)
  show ?thesis
    using router_first_occurrence [OF i, of revisit_map node_revisit "dijkstra_init revisit_map 0"]
      i f s v create_revisit
    by (simp add: way_revisit_def)
qed

lemmas detour_map_defs = detour_map_def way_a_def way_b_def way_c_def









lemma time_detour_02: "ssmap_path_travel_time detour_map [0, 2] = Inr ([], Fin (6371 * pi / 180))"
  by (simp add: travel_eval detour_map_defs)






text \<open>
  The condition of claim C2 as amended that no way lists a point twice is needed.
  On the closed way the router prints 0 1 2 from 0 to 2, whose travel time is
  three times that of the sequence 0 2, which passes the checks: 2 and 0 are
  adjacent at the end of the way's sequence, next to the second occurrence of 0,
  where the router does not look.
\<close>

theorem ring_path_not_optimal:
  "ssmap_path_create ring_map 0 2 = Some (Inr [PathLine [0, 1, 2]]) \<and>
   ssmap_path_travel_time ring_map [0, 1, 2] = Inr ([], Fin (6371 * pi / 60)) \<and>
   ssmap_path_travel_time ring_map [0, 2] = Inr ([], Fin (6371 * pi / 180)) \<and>
   6371 * pi / 180 < 6371 * pi / 60"
  using create_ring time_ring_012 time_ring_02 by simp

text \<open>The closed way is a map with the data model's invariants.\<close>

lemma wf_ring_map: "wf_map ring_map"
  by (simp add: wf_map_def ring_map_def way_ring_def get_way_def get_node_def num_ways_def
      num_nodes_def)

end
